theory Spec2Isabelle
  imports Complex_Main
begin

section \<open>Python values\<close>

text \<open>
  The program works on the values that \<^verbatim>\<open>json.loads\<close> returns and on the nested
  dictionaries it builds from them. Both are Python objects, so one datatype serves for
  the JSON document and for the schema. A \<^verbatim>\<open>dict\<close> is an association list in
  insertion order; Python keeps its keys distinct. Integers are unbounded. A float is
  carried by the real number it denotes: rounding, NaN and the infinities of IEEE doubles
  are outside this model.
\<close>

datatype pyval =
    PNone
  | PBool bool
  | PInt int
  | PFloat real
  | PStr string
  | PList "pyval list"
  | PTuple "pyval list"
  | PDict "(string \<times> pyval) list"

type_synonym pydict = "(string \<times> pyval) list"

type_synonym path = "string list"

text \<open>\<^verbatim>\<open>key in d\<close>, \<^verbatim>\<open>d.get(key)\<close> and \<^verbatim>\<open>d[key] = value\<close>: an assignment to a key
  already present keeps the key's position, a new key goes to the end.\<close>

definition dict_has :: "string \<Rightarrow> (string \<times> 'v) list \<Rightarrow> bool" where
  "dict_has k d = (k \<in> set (map fst d))"

definition dict_get :: "(string \<times> 'v) list \<Rightarrow> string \<Rightarrow> 'v option" where
  "dict_get d k = map_of d k"

fun dict_set :: "string \<Rightarrow> 'v \<Rightarrow> (string \<times> 'v) list \<Rightarrow> (string \<times> 'v) list" where
  "dict_set k v [] = [(k, v)]"
| "dict_set k v ((k', v') # d) =
     (if k' = k then (k, v) # d else (k', v') # dict_set k v d)"

text \<open>A value as the JSON parser builds it: every dictionary has distinct keys, and there
  are no tuples.\<close>

fun json_value :: "pyval \<Rightarrow> bool" where
  "json_value (PList xs) = list_all json_value xs"
| "json_value (PDict kvs) = (distinct (map fst kvs) \<and> list_all (\<lambda>kv. json_value (snd kv)) kvs)"
| "json_value (PTuple xs) = False"
| "json_value v = True"

section \<open>Visibility filter\<close>

text \<open>\<^verbatim>\<open>JsonViewerWindow.filter_json_by_visibility\<close> with its inner
  \<^verbatim>\<open>_filter_recursive\<close>. The hidden-path set of the window is the argument \<open>H\<close>.\<close>

fun filter_recursive :: "path set \<Rightarrow> pyval \<Rightarrow> path \<Rightarrow> pyval"
  and filter_items :: "path set \<Rightarrow> pydict \<Rightarrow> path \<Rightarrow> pydict \<Rightarrow> pydict" where
  "filter_recursive H (PDict kvs) current_path = PDict (filter_items H kvs current_path [])"
| "filter_recursive H (PList xs) current_path =
     PList (map (\<lambda>item. filter_recursive H item current_path) xs)"
| "filter_recursive H v current_path = v"
| "filter_items H [] current_path result = result"
| "filter_items H ((key, value) # rest) current_path result =
     (let key_path = current_path @ [key] in
      if key_path \<in> H then filter_items H rest current_path result
      else filter_items H rest current_path
             (dict_set key (filter_recursive H value key_path) result))"

definition filter_json_by_visibility :: "path set \<Rightarrow> pyval \<Rightarrow> pyval" where
  "filter_json_by_visibility H json_data =
     (if H = {} then json_data else filter_recursive H json_data [])"

section \<open>Types and numbers\<close>

text \<open>\<^verbatim>\<open>type(value).__name__\<close>. A class is represented by its name.\<close>

fun type_name :: "pyval \<Rightarrow> string" where
  "type_name PNone = ''NoneType''"
| "type_name (PBool b) = ''bool''"
| "type_name (PInt i) = ''int''"
| "type_name (PFloat r) = ''float''"
| "type_name (PStr s) = ''str''"
| "type_name (PList xs) = ''list''"
| "type_name (PTuple xs) = ''tuple''"
| "type_name (PDict kvs) = ''dict''"

text \<open>\<^verbatim>\<open>isinstance(value, cls)\<close>: the value's class is \<open>cls\<close> or a subclass of it. Among
  the classes above the only subclass relation is \<^verbatim>\<open>bool\<close> below \<^verbatim>\<open>int\<close>.\<close>

definition isinstance :: "pyval \<Rightarrow> string \<Rightarrow> bool" where
  "isinstance v cls = (type_name v = cls \<or> (type_name v = ''bool'' \<and> cls = ''int''))"

definition isinstance_int_float :: "pyval \<Rightarrow> bool" where
  "isinstance_int_float v = (isinstance v ''int'' \<or> isinstance v ''float'')"

text \<open>The number a numeric value stands for; \<^verbatim>\<open>True\<close> is 1 and \<^verbatim>\<open>False\<close> is 0.\<close>

fun num_val :: "pyval \<Rightarrow> real" where
  "num_val (PBool b) = (if b then 1 else 0)"
| "num_val (PInt i) = of_int i"
| "num_val (PFloat r) = r"
| "num_val v = 0"

fun int_val :: "pyval \<Rightarrow> int" where
  "int_val (PBool b) = (if b then 1 else 0)"
| "int_val (PInt i) = i"
| "int_val v = 0"

fun str_val :: "pyval \<Rightarrow> string" where
  "str_val (PStr s) = s"
| "str_val v = []"

section \<open>Library functions the summarizer calls\<close>

text \<open>Builtin \<^verbatim>\<open>min\<close> and \<^verbatim>\<open>max\<close> over numbers: the first smallest (largest) element,
  returned as the object it is. \<open>None\<close> stands for the \<^verbatim>\<open>ValueError\<close> on an empty
  sequence.\<close>

fun min_from :: "pyval \<Rightarrow> pyval list \<Rightarrow> pyval" where
  "min_from m [] = m"
| "min_from m (x # xs) = min_from (if num_val x < num_val m then x else m) xs"

fun max_from :: "pyval \<Rightarrow> pyval list \<Rightarrow> pyval" where
  "max_from m [] = m"
| "max_from m (x # xs) = max_from (if num_val m < num_val x then x else m) xs"

fun py_min :: "pyval list \<Rightarrow> pyval option" where
  "py_min [] = None"
| "py_min (x # xs) = Some (min_from x xs)"

fun py_max :: "pyval list \<Rightarrow> pyval option" where
  "py_max [] = None"
| "py_max (x # xs) = Some (max_from x xs)"

text \<open>
  Module \<^verbatim>\<open>statistics\<close>, on exact values. \<open>None\<close> stands for \<^verbatim>\<open>StatisticsError\<close>.
  \<^item> \<^verbatim>\<open>mean\<close>: the exact sum divided by the count; for data of \<^verbatim>\<open>int\<close> and \<^verbatim>\<open>bool\<close>
    the result is an \<^verbatim>\<open>int\<close> when the quotient is whole and a \<^verbatim>\<open>float\<close> otherwise.
  \<^item> \<^verbatim>\<open>median\<close>: the middle element of the sorted data, or half the sum of the two
    middle elements (a true division, hence a \<^verbatim>\<open>float\<close>). \<^verbatim>\<open>sorted\<close> is stable.
  \<^item> \<^verbatim>\<open>stdev\<close>: the square root of the sample variance; it needs two data points.

  The functions compute with exact sums, as the module does. The conversion of the exact
  result to a \<^verbatim>\<open>float\<close>, which rounds and which overflows for quotients beyond the
  range of a double, is outside this model.
\<close>

definition mean :: "pyval list \<Rightarrow> pyval option" where
  "mean data =
     (if data = [] then None
      else if list_all (\<lambda>x. isinstance x ''int'') data then
        (let total = sum_list (map int_val data); n = int (length data) in
         Some (if n dvd total then PInt (total div n) else PFloat (of_int total / of_int n)))
      else Some (PFloat (sum_list (map num_val data) / of_nat (length data))))"

definition median :: "pyval list \<Rightarrow> pyval option" where
  "median data =
     (let sorted_data = sort_key num_val data; n = length sorted_data in
      if n = 0 then None
      else if n mod 2 = 1 then Some (sorted_data ! (n div 2))
      else (let i = n div 2 in
            Some (PFloat ((num_val (sorted_data ! (i - 1)) + num_val (sorted_data ! i)) / 2))))"

definition variance :: "pyval list \<Rightarrow> real" where
  "variance data =
     (let n = length data; xbar = sum_list (map num_val data) / of_nat n in
      sum_list (map (\<lambda>x. (num_val x - xbar)\<^sup>2) data) / of_nat (n - 1))"

text \<open>\<^verbatim>\<open>math.sqrt\<close> is the real square root. It has no code equation: evaluation
  leaves a square root as it stands.\<close>

definition py_sqrt :: "real \<Rightarrow> real" where
  py_sqrt_def [code del]: "py_sqrt x = sqrt x"

definition stdev :: "pyval list \<Rightarrow> pyval option" where
  "stdev data = (if length data < 2 then None else Some (PFloat (py_sqrt (variance data))))"

text \<open>\<^verbatim>\<open>collections.Counter\<close>: a dictionary from each distinct element to its number of
  occurrences, keys in the order of first occurrence.\<close>

fun counter_loop :: "string list \<Rightarrow> (string \<times> nat) list \<Rightarrow> (string \<times> nat) list" where
  "counter_loop [] c = c"
| "counter_loop (elem # rest) c =
     counter_loop rest
       (dict_set elem ((case dict_get c elem of None \<Rightarrow> 0 | Some n \<Rightarrow> n) + 1) c)"

definition counter :: "string list \<Rightarrow> (string \<times> nat) list" where
  "counter arr = counter_loop arr []"

text \<open>\<^verbatim>\<open>Counter.most_common()\<close> is \<^verbatim>\<open>sorted(items, key=itemgetter(1), reverse=True)\<close>,
  and \<^verbatim>\<open>most_common(n)\<close> is its first \<open>n\<close> entries. The sort is stable also when
  reversed: entries with equal counts stay in dictionary order.\<close>

definition most_common_all :: "(string \<times> nat) list \<Rightarrow> (string \<times> nat) list" where
  "most_common_all c = sort_key (\<lambda>kv. - int (snd kv)) c"

definition most_common :: "nat \<Rightarrow> (string \<times> nat) list \<Rightarrow> (string \<times> nat) list" where
  "most_common n c = take n (most_common_all c)"

text \<open>
  \<^verbatim>\<open>random.sample(population, k)\<close>: \<open>k\<close> distinct elements of the population, chosen by
  the generator. The generator is the sequence of natural numbers it will hand out
  (its entropy), and \<^verbatim>\<open>randbelow(n)\<close> reduces the next one modulo \<open>n\<close>. The selection
  is the pool algorithm of the library: pick an index into the pool, then move the
  pool's last element into the vacancy. The \<^verbatim>\<open>ValueError\<close> for \<open>k\<close> larger than the
  population cannot arise at the one call site, which passes
  \<^verbatim>\<open>min(3, len(arr) - 2)\<close> for a population of \<^verbatim>\<open>len(arr) - 2\<close> indices.
\<close>

type_synonym rng = "nat \<Rightarrow> nat"

fun random_sample :: "nat list \<Rightarrow> nat \<Rightarrow> rng \<Rightarrow> nat list \<times> rng" where
  "random_sample pool 0 g = ([], g)"
| "random_sample [] (Suc k) g = ([], g)"
| "random_sample (p # ps) (Suc k) g =
     (let pool = p # ps; n = length pool; j = g 0 mod n;
          (result, g') = random_sample (butlast (pool[j := last pool])) k (\<lambda>i. g (Suc i))
      in (pool ! j # result, g'))"

section \<open>Statistical summarizer\<close>

text \<open>\<^verbatim>\<open>JsonSchemaAnalyzer._compute_array_stats\<close>. The numeric branch runs inside
  \<^verbatim>\<open>try ... except Exception: pass\<close>: when a call raises, the statistics stored so
  far are kept and the rest of the branch is skipped. The call of \<^verbatim>\<open>stdev\<close> has a
  handler of its own.\<close>

definition median_stdev :: "pyval list \<Rightarrow> pydict \<Rightarrow> pydict option" where
  "median_stdev arr stats =
     (if length arr > 1 then
        (case median arr of
           None \<Rightarrow> None
         | Some md \<Rightarrow>
             (let stats = dict_set ''median'' md stats in
              Some (case stdev arr of
                      None \<Rightarrow> stats
                    | Some sd \<Rightarrow> dict_set ''stdev'' sd stats)))
      else Some stats)"

definition numeric_examples :: "pyval list \<Rightarrow> pydict \<Rightarrow> pydict" where
  "numeric_examples arr stats =
     (if length arr > 5 then
        (let examples = [hd arr, last arr];
             mid_idx = length arr div 2;
             examples = (if mid_idx > 0 \<and> mid_idx < length arr
                         then examples @ [arr ! mid_idx] else examples)
         in dict_set ''examples'' (PList examples) stats)
      else stats)"

definition numeric_stats :: "pyval list \<Rightarrow> pydict \<Rightarrow> pydict" where
  "numeric_stats arr stats =
     (case py_min arr of
        None \<Rightarrow> stats
      | Some mn \<Rightarrow>
          (let stats = dict_set ''min'' mn stats in
           case py_max arr of
             None \<Rightarrow> stats
           | Some mx \<Rightarrow>
               (let stats = dict_set ''max'' mx stats in
                case mean arr of
                  None \<Rightarrow> stats
                | Some m \<Rightarrow>
                    (let stats = dict_set ''mean'' m stats in
                     case median_stdev arr stats of
                       None \<Rightarrow> stats
                     | Some stats \<Rightarrow> numeric_examples arr stats))))"

definition common_entry :: "string \<times> nat \<Rightarrow> pyval" where
  "common_entry vc = PDict [(''value'', PStr (fst vc)), (''count'', PInt (int (snd vc)))]"

definition common_stats :: "pyval list \<Rightarrow> pydict \<Rightarrow> pydict" where
  "common_stats arr stats =
     (if length arr < 1000 then
        (let c = counter (map str_val arr);
             mc = most_common 5 c;
             stats = (if mc \<noteq> [] then dict_set ''most_common'' (PList (map common_entry mc)) stats
                      else stats)
         in if length c > 5 then
              (let least_common = take 5 (rev (most_common_all c))
               in dict_set ''least_common'' (PList (map common_entry least_common)) stats)
            else stats)
      else stats)"

definition string_examples :: "pyval list \<Rightarrow> pydict \<Rightarrow> rng \<Rightarrow> pydict \<times> rng" where
  "string_examples arr stats g =
     (if length arr > 5 then
        (let n = length arr;
             sample_indices = [0, n - 1];
             (drawn, g') = (if n > 3 then random_sample [1 ..< n - 1] (min 3 (n - 2)) g
                            else ([], g));
             sample_indices = sample_indices @ drawn
         in (dict_set ''examples'' (PList (map (\<lambda>i. arr ! i) sample_indices)) stats, g'))
      else (stats, g))"

text \<open>The string branch is entered with a non-empty array only, so \<^verbatim>\<open>min(lengths)\<close> and
  \<^verbatim>\<open>max(lengths)\<close> have an argument and the division is by a positive count.\<close>

definition string_stats :: "pyval list \<Rightarrow> pydict \<Rightarrow> rng \<Rightarrow> pydict \<times> rng" where
  "string_stats arr stats g =
     (let lengths = map (\<lambda>s. PInt (int (length (str_val s)))) arr in
      case lengths of
        [] \<Rightarrow> (stats, g)
      | l # ls \<Rightarrow>
          (let stats = dict_set ''min_length'' (min_from l ls) stats;
               stats = dict_set ''max_length'' (max_from l ls) stats;
               stats = dict_set ''avg_length''
                         (PFloat (of_int (sum_list (map int_val lengths)) / of_nat (length lengths)))
                         stats;
               stats = common_stats arr stats
           in string_examples arr stats g))"

definition compute_array_stats :: "pyval list \<Rightarrow> rng \<Rightarrow> pydict \<times> rng" where
  "compute_array_stats arr g =
     (let stats = [(''count'', PInt (int (length arr)))] in
      case arr of
        [] \<Rightarrow> (stats, g)
      | first # _ \<Rightarrow>
          (let first_type = type_name first;
               all_same_type = list_all (\<lambda>item. isinstance item first_type) arr;
               stats = dict_set ''uniform_type'' (PBool all_same_type) stats
           in if all_same_type \<and> list_all isinstance_int_float arr then (numeric_stats arr stats, g)
              else if all_same_type \<and> list_all (\<lambda>item. isinstance item ''str'') arr
                then string_stats arr stats g
              else (stats, g)))"

text \<open>\<^verbatim>\<open>JsonSchemaAnalyzer._compute_value_stats\<close>. The guards of the
  \<^verbatim>\<open>if\<close>/\<^verbatim>\<open>elif\<close> chain are kept in the order of the source.\<close>

fun truthy :: "pyval \<Rightarrow> bool" where
  "truthy PNone = False"
| "truthy (PBool b) = b"
| "truthy (PInt i) = (i \<noteq> 0)"
| "truthy (PFloat r) = (r \<noteq> 0)"
| "truthy (PStr s) = (s \<noteq> [])"
| "truthy (PList xs) = (xs \<noteq> [])"
| "truthy (PTuple xs) = (xs \<noteq> [])"
| "truthy (PDict kvs) = (kvs \<noteq> [])"

definition sibling_min_max :: "string \<Rightarrow> pyval \<Rightarrow> pydict \<Rightarrow> pydict" where
  "sibling_min_max key parent_obj stats =
     (if truthy parent_obj \<and> isinstance parent_obj ''dict'' then
        (case parent_obj of
           PDict kvs \<Rightarrow>
             (case dict_get kvs key of
                Some v \<Rightarrow> dict_set ''max'' (max_from v []) (dict_set ''min'' (min_from v []) stats)
              | None \<Rightarrow> stats)
         | _ \<Rightarrow> stats)
      else stats)"

definition compute_value_stats :: "string \<Rightarrow> pyval \<Rightarrow> pyval \<Rightarrow> pydict" where
  "compute_value_stats key v parent_obj =
     (let stats = [(''type'', PStr (type_name v))] in
      if isinstance_int_float v then
        sibling_min_max key parent_obj (dict_set ''value'' v stats)
      else if isinstance v ''str'' then
        (let stats = dict_set ''length'' (PInt (int (length (str_val v)))) stats in
         if length (str_val v) > 50
         then dict_set ''preview'' (PStr (take 50 (str_val v) @ ''...'')) stats
         else dict_set ''preview'' v stats)
      else if isinstance v ''bool'' then dict_set ''value'' v stats
      else if v = PNone then dict_set ''value'' (PStr ''null'') stats
      else stats)"

text \<open>\<^verbatim>\<open>JsonSchemaAnalyzer._get_examples\<close>.\<close>

definition get_examples :: "pyval \<Rightarrow> pyval" where
  "get_examples v =
     (if isinstance v ''str'' \<or> isinstance v ''int'' \<or> isinstance v ''float''
         \<or> isinstance v ''bool'' \<or> v = PNone then PList [v]
      else case v of
        PList xs \<Rightarrow>
          (if length xs \<le> 3 then PList xs
           else PList [hd xs, xs ! (length xs div 2), last xs])
      | PDict kvs \<Rightarrow>
          (if length kvs \<le> 3 then PList (map (\<lambda>kv. PTuple [PStr (fst kv), snd kv]) kvs)
           else PList (map (\<lambda>kv. PTuple [PStr (fst kv), snd kv]) (take 3 kvs)))
      | _ \<Rightarrow> PList [])"

section \<open>Schema inference\<close>

text \<open>\<^verbatim>\<open>JsonSchemaAnalyzer._analyze_object\<close>: the loop over \<^verbatim>\<open>obj.items()\<close>, with the
  items still to visit, the schema built so far and the generator.\<close>

fun analyze_items :: "pydict \<Rightarrow> pydict \<Rightarrow> pydict \<Rightarrow> rng \<Rightarrow> pydict \<times> rng" where
  "analyze_items obj [] schema g = (schema, g)"
| "analyze_items obj ((key, PDict kvs) # rest) schema g =
     (let (properties, g1) = analyze_items kvs kvs [] g
      in analyze_items obj rest
           (dict_set key (PDict [(''type'', PStr ''object''), (''properties'', PDict properties)])
              schema) g1)"
| "analyze_items obj ((key, PList xs) # rest) schema g =
     (let element_type =
            (if xs \<noteq> [] \<and> list_all (\<lambda>item. isinstance item (type_name (hd xs))) xs
             then type_name (hd xs) else ''mixed'');
          (array_stats, g1) = compute_array_stats xs g;
          node = [(''type'', PStr ''array''), (''element_type'', PStr element_type),
                  (''stats'', PDict array_stats)]
      in case xs of
           PDict kvs # _ \<Rightarrow>
             (let (sample_schema, g2) = analyze_items kvs kvs [] g1
              in analyze_items obj rest
                   (dict_set key (PDict (dict_set ''properties'' (PDict sample_schema) node))
                      schema) g2)
         | _ \<Rightarrow> analyze_items obj rest (dict_set key (PDict node) schema) g1)"
| "analyze_items obj ((key, v) # rest) schema g =
     analyze_items obj rest
       (dict_set key
          (PDict [(''type'', PStr (type_name v)), (''value'', v),
                  (''stats'', PDict (compute_value_stats key v (PDict obj))),
                  (''examples'', get_examples v)])
          schema) g"

definition analyze_object :: "pydict \<Rightarrow> rng \<Rightarrow> pydict \<times> rng" where
  "analyze_object obj g = analyze_items obj obj [] g"

text \<open>The schema node that one iteration of the loop stores under its key, with the
  generator it leaves: the body of the loop as a function of the key and the value.
  \<open>analyze_items\<close> is shown below to store exactly this node.\<close>

definition property_schema :: "pydict \<Rightarrow> string \<Rightarrow> pyval \<Rightarrow> rng \<Rightarrow> pyval \<times> rng" where
  "property_schema obj key v g =
     (case v of
        PDict kvs \<Rightarrow>
          (let (properties, g1) = analyze_object kvs g
           in (PDict [(''type'', PStr ''object''), (''properties'', PDict properties)], g1))
      | PList xs \<Rightarrow>
          (let element_type =
                 (if xs \<noteq> [] \<and> list_all (\<lambda>item. isinstance item (type_name (hd xs))) xs
                  then type_name (hd xs) else ''mixed'');
               (array_stats, g1) = compute_array_stats xs g;
               node = [(''type'', PStr ''array''), (''element_type'', PStr element_type),
                       (''stats'', PDict array_stats)]
           in case xs of
                PDict kvs # _ \<Rightarrow>
                  (let (sample_schema, g2) = analyze_object kvs g1
                   in (PDict (dict_set ''properties'' (PDict sample_schema) node), g2))
              | _ \<Rightarrow> (PDict node, g1))
      | _ \<Rightarrow>
          (PDict [(''type'', PStr (type_name v)), (''value'', v),
                  (''stats'', PDict (compute_value_stats key v (PDict obj))),
                  (''examples'', get_examples v)], g))"

text \<open>\<^verbatim>\<open>JsonSchemaAnalyzer.analyze_json\<close>. \<open>merge_first\<close> is the inner loop over
  \<^verbatim>\<open>item_schema.items()\<close>, \<open>combine_items\<close> the loop over \<^verbatim>\<open>json_data[:10]\<close>.\<close>

fun merge_first :: "pydict \<Rightarrow> pydict \<Rightarrow> pydict" where
  "merge_first [] combined_schema = combined_schema"
| "merge_first ((key, v) # rest) combined_schema =
     merge_first rest
       (if \<not> dict_has key combined_schema then dict_set key v combined_schema
        else combined_schema)"

fun combine_items :: "pyval list \<Rightarrow> pydict \<Rightarrow> rng \<Rightarrow> pydict \<times> rng" where
  "combine_items [] combined_schema g = (combined_schema, g)"
| "combine_items (PDict obj # items) combined_schema g =
     (let (item_schema, g1) = analyze_object obj g
      in combine_items items (merge_first item_schema combined_schema) g1)"
| "combine_items (item # items) combined_schema g = combine_items items combined_schema g"

fun analyze_json :: "pyval \<Rightarrow> rng \<Rightarrow> pydict \<times> rng" where
  "analyze_json (PDict obj) g = analyze_object obj g"
| "analyze_json (PList (x # xs)) g =
     (let json_data = x # xs;
          (combined_schema, g1) = combine_items (take 10 json_data) [] g;
          (array_stats, g2) = compute_array_stats json_data g1
      in (dict_set ''__array_stats'' (PDict array_stats) combined_schema, g2))"
| "analyze_json v g = ([], g)"

section \<open>Path addressing\<close>

text \<open>Python operators on arbitrary objects, as far as the path walk uses them.
  \<^verbatim>\<open>x in s\<close> on a string is the substring test, on a list or tuple it compares the
  elements with \<open>x\<close>, on a dictionary it tests the keys, and on anything else it raises
  \<^verbatim>\<open>TypeError\<close>. \<^verbatim>\<open>s[x]\<close> with a string \<open>x\<close> is defined on dictionaries only and raises
  \<^verbatim>\<open>KeyError\<close> for a missing key.\<close>

datatype py_error = TypeError | KeyError

fun is_substring :: "string \<Rightarrow> string \<Rightarrow> bool" where
  "is_substring sub [] = (sub = [])"
| "is_substring sub (c # cs) = (take (length sub) (c # cs) = sub \<or> is_substring sub cs)"

fun py_in :: "string \<Rightarrow> pyval \<Rightarrow> py_error + bool" where
  "py_in x (PDict d) = Inr (dict_has x d)"
| "py_in x (PStr s) = Inr (is_substring x s)"
| "py_in x (PList xs) = Inr (list_ex (\<lambda>y. y = PStr x) xs)"
| "py_in x (PTuple xs) = Inr (list_ex (\<lambda>y. y = PStr x) xs)"
| "py_in x v = Inl TypeError"

fun py_getitem :: "pyval \<Rightarrow> string \<Rightarrow> py_error + pyval" where
  "py_getitem (PDict d) x = (case dict_get d x of Some v \<Rightarrow> Inr v | None \<Rightarrow> Inl KeyError)"
| "py_getitem v x = Inl TypeError"

text \<open>\<^verbatim>\<open>JsonSchemaViewer._get_schema_at_path\<close>. \<open>walk_path\<close> is the loop over
  \<^verbatim>\<open>enumerate(path)\<close>: the index, the schema reached so far and the segments still to
  come. The result \<^verbatim>\<open>None\<close> of the source is \<open>Inr PNone\<close>. \<open>step_segment\<close> is the
  part of the loop body under \<^verbatim>\<open>isinstance(schema, dict)\<close>; its \<open>None\<close> is the
  \<^verbatim>\<open>return None\<close>.\<close>

definition segment_in_properties :: "pydict \<Rightarrow> string \<Rightarrow> py_error + bool" where
  "segment_in_properties d segment =
     (case dict_get d ''properties'' of
        None \<Rightarrow> Inr False
      | Some props \<Rightarrow> py_in segment props)"

definition properties_item :: "pydict \<Rightarrow> string \<Rightarrow> py_error + pyval option" where
  "properties_item d segment =
     (case dict_get d ''properties'' of
        None \<Rightarrow> Inl KeyError
      | Some props \<Rightarrow> (case py_getitem props segment of Inl e \<Rightarrow> Inl e | Inr v \<Rightarrow> Inr (Some v)))"

definition step_segment :: "pydict \<Rightarrow> string \<Rightarrow> py_error + pyval option" where
  "step_segment d segment =
     (case dict_get d segment of
        Some v \<Rightarrow> Inr (Some v)
      | None \<Rightarrow>
          (case segment_in_properties d segment of
             Inl e \<Rightarrow> Inl e
           | Inr True \<Rightarrow> properties_item d segment
           | Inr False \<Rightarrow>
               (if dict_get d ''type'' = Some (PStr ''array'') \<and> dict_has ''properties'' d then
                  (case segment_in_properties d segment of
                     Inl e \<Rightarrow> Inl e
                   | Inr True \<Rightarrow> properties_item d segment
                   | Inr False \<Rightarrow> Inr None)
                else Inr None)))"

fun walk_path :: "nat \<Rightarrow> pyval \<Rightarrow> path \<Rightarrow> py_error + pyval" where
  "walk_path i schema [] = Inr schema"
| "walk_path i schema (segment # rest) =
     (case py_in ''__array_stats'' schema of
        Inl e \<Rightarrow> Inl e
      | Inr has_stats \<Rightarrow>
          (if has_stats \<and> i = 0 then walk_path (i + 1) schema rest
           else case schema of
                  PDict d \<Rightarrow>
                    (case step_segment d segment of
                       Inl e \<Rightarrow> Inl e
                     | Inr None \<Rightarrow> Inr PNone
                     | Inr (Some next_schema) \<Rightarrow> walk_path (i + 1) next_schema rest)
                | _ \<Rightarrow> Inr PNone))"

definition get_schema_at_path :: "pydict \<Rightarrow> path \<Rightarrow> py_error + pyval" where
  "get_schema_at_path schema_info path =
     (if path = [] then Inr (PDict schema_info) else walk_path 0 (PDict schema_info) path)"

text \<open>
  The schema tree. A \<^verbatim>\<open>QTreeWidgetItem\<close> is modelled by the text of its column 0 and its
  children; column 1 (the type label) and the hidden flag are never read by the path
  functions. An item is addressed by the child indices that lead to it from the top-level
  item, which stands for the chain of \<^verbatim>\<open>parent()\<close> links.

  \<^verbatim>\<open>JsonSchemaViewer._add_schema_item\<close> is only ever handed the nodes that
  \<open>analyze_items\<close> builds, in which \<open>properties\<close> is a dictionary; for any other
  value under \<open>properties\<close> the model adds no children.
\<close>

datatype item = Item (item_text: string) (item_children: "item list")

function add_schema_item :: "string \<Rightarrow> pyval \<Rightarrow> item" where
  "add_schema_item key schema =
     (case schema of
        PDict d \<Rightarrow>
          (if dict_has ''type'' d then
             (let sub_items =
                    (case dict_get d ''properties'' of
                       Some (PDict props) \<Rightarrow> map (\<lambda>kv. add_schema_item (fst kv) (snd kv)) props
                     | _ \<Rightarrow> [])
              in if dict_get d ''type'' = Some (PStr ''object'') \<and> dict_has ''properties'' d
                 then Item key sub_items
                 else if dict_get d ''type'' = Some (PStr ''array'') \<and> dict_has ''element_type'' d
                 then Item key [Item ''elements'' (if dict_has ''properties'' d then sub_items else [])]
                 else Item key [])
           else Item key [])
      | _ \<Rightarrow> Item key [])"
  by pat_completeness auto
termination
proof (relation "measure (\<lambda>(key, schema). size schema)")
  show "wf (measure (\<lambda>(key, schema). size schema))" by simp
next
  fix key :: string and schema :: pyval and d :: pydict and x2 :: "pyval option"
    and props_val :: pyval and props :: pydict and kv :: "string \<times> pyval"
  assume s: "schema = PDict d" and g: "dict_get d ''properties'' = Some props_val"
    and p: "props_val = PDict props" and m: "kv \<in> set props"
  have "size (snd kv) < size (PDict props)"
    using m by (induction props) auto
  moreover have "map_of d ''properties'' = Some (PDict props) \<Longrightarrow> size (PDict props) < size (PDict d)"
    by (induction d) (auto split: if_splits)
  then have "size (PDict props) < size (PDict d)"
    using g p by (simp add: dict_get_def)
  ultimately show "((fst kv, snd kv), (key, schema)) \<in> measure (\<lambda>(key, schema). size schema)"
    using s by (simp add: case_prod_beta)
qed

text \<open>\<^verbatim>\<open>JsonSchemaViewer.update_schema_tree\<close>: the top-level items of the tree.\<close>

definition update_schema_tree :: "pydict \<Rightarrow> item list" where
  "update_schema_tree schema_info =
     (if schema_info = [] then []
      else if dict_has ''__array_stats'' schema_info then
        [Item ''[Root]''
           (Item ''Count'' []
            # map (\<lambda>kv. add_schema_item (fst kv) (snd kv))
                (filter (\<lambda>kv. fst kv \<noteq> ''__array_stats'') schema_info))]
      else [Item ''[Root]'' (map (\<lambda>kv. add_schema_item (fst kv) (snd kv)) schema_info)])"

text \<open>\<^verbatim>\<open>JsonSchemaTreeWidget._get_item_path\<close>. \<open>texts_to\<close> lists the texts from the
  top-level item down to the addressed item, which is the order the source builds with
  \<^verbatim>\<open>path.insert(0, text)\<close> while walking up; \<open>None\<close> says that no item has the address.\<close>

fun texts_to :: "item \<Rightarrow> nat list \<Rightarrow> string list option" where
  "texts_to (Item t cs) [] = Some [t]"
| "texts_to (Item t cs) (i # pos) =
     (if i < length cs then map_option ((#) t) (texts_to (cs ! i) pos) else None)"

definition get_item_path :: "item \<Rightarrow> nat list \<Rightarrow> path option" where
  "get_item_path top_item pos =
     map_option (filter (\<lambda>t. t \<noteq> ''[Root]'' \<and> t \<noteq> ''elements'')) (texts_to top_item pos)"

section \<open>Query normalization\<close>

text \<open>
  Queries are ASCII strings. \<open>is_space\<close> and \<open>is_word\<close> are the classes \<^verbatim>\<open>\s\<close> and
  \<^verbatim>\<open>\w\<close> of module \<^verbatim>\<open>re\<close> on ASCII characters; \<open>is_field_char\<close> is the class
  \<^verbatim>\<open>[\.\w+]\<close>.
\<close>

definition is_space :: "char \<Rightarrow> bool" where
  "is_space c = (let n = (of_char c :: nat) in (9 \<le> n \<and> n \<le> 13) \<or> (28 \<le> n \<and> n \<le> 32))"

definition is_word :: "char \<Rightarrow> bool" where
  "is_word c =
     (let n = (of_char c :: nat)
      in (48 \<le> n \<and> n \<le> 57) \<or> (65 \<le> n \<and> n \<le> 90) \<or> (97 \<le> n \<and> n \<le> 122) \<or> n = 95)"

definition is_field_char :: "char \<Rightarrow> bool" where
  "is_field_char c = (c = CHR ''.'' \<or> is_word c \<or> c = CHR ''+'')"



definition field_group :: "string \<Rightarrow> string option" where
  "field_group s =
     (case s of
        [] \<Rightarrow> None
      | c # cs \<Rightarrow>
          if c = CHR ''.'' then
            (let w = takeWhile is_word cs in
             if w = [] then None
             else Some (c # w @ takeWhile is_field_char (dropWhile is_word cs)))
          else None)"







text \<open>\<^verbatim>\<open>str.replace(old, new)\<close>: every occurrence of \<open>old\<close>, found from left to right
  without overlap, becomes \<open>new\<close>; an empty \<open>old\<close> matches before every character and
  at the end.\<close>

function replace_all :: "string \<Rightarrow> string \<Rightarrow> string \<Rightarrow> string" where
  "replace_all old new s =
     (if old = [] then new @ concat (map (\<lambda>c. c # new) s)
      else if s = [] then []
      else if take (length old) s = old then new @ replace_all old new (drop (length old) s)
      else hd s # replace_all old new (tl s))"
  by pat_completeness auto
termination
  by (relation "measure (\<lambda>(old, new, s). length s)") auto




section \<open>The window and its hidden-path set\<close>

text \<open>
  The state of \<^verbatim>\<open>JsonViewerWindow\<close> that outlives a call: the file path, the file's
  text, the parsed document, the hidden-path set, and the document last handed to the
  schema viewer (\<^verbatim>\<open>schema_viewer.set_json_data\<close>). What the text widgets display is
  not part of the model. The collaborators are parameters: \<open>loads\<close> is \<^verbatim>\<open>json.loads\<close>
  (\<open>None\<close> for \<^verbatim>\<open>JSONDecodeError\<close>), the text read from the file comes with the load
  event (\<open>None\<close> when opening or reading raises), and the outcome of running the query
  engine comes with the query event.
\<close>

record window =
  current_json_file :: "string option"
  json_content :: "string option"
  parsed_json :: "pyval option"
  hidden_paths :: "path set"
  schema_data :: "pyval option"

definition init_window :: window where
  "init_window =
     \<lparr>current_json_file = None, json_content = None, parsed_json = None,
      hidden_paths = {}, schema_data = None\<rparr>"

text \<open>\<^verbatim>\<open>JsonViewerWindow.toggle_attribute_visibility\<close>\<close>

definition toggle_attribute_visibility :: "path \<Rightarrow> bool \<Rightarrow> window \<Rightarrow> window" where
  "toggle_attribute_visibility path is_visible w =
     (if is_visible then w\<lparr>hidden_paths := hidden_paths w - {path}\<rparr>
      else w\<lparr>hidden_paths := insert path (hidden_paths w)\<rparr>)"

text \<open>\<^verbatim>\<open>JsonViewerWindow.load_json_file\<close>\<close>

definition load_json_file ::
  "(string \<Rightarrow> pyval option) \<Rightarrow> string \<Rightarrow> string option \<Rightarrow> window \<Rightarrow> window" where
  "load_json_file loads file_path file_text w =
     (case file_text of
        None \<Rightarrow> w\<lparr>current_json_file := None, json_content := None, parsed_json := None\<rparr>
      | Some content \<Rightarrow>
          (let w = w\<lparr>json_content := Some content, current_json_file := Some file_path,
                     hidden_paths := {}\<rparr>
           in case loads content of
                Some v \<Rightarrow> w\<lparr>parsed_json := Some v, schema_data := Some v\<rparr>
              | None \<Rightarrow>
                  w\<lparr>current_json_file := None, json_content := None, parsed_json := None\<rparr>))"

text \<open>\<^verbatim>\<open>JsonViewerWindow.reset_to_original_json\<close>\<close>

definition reset_to_original_json :: "(string \<Rightarrow> pyval option) \<Rightarrow> window \<Rightarrow> window" where
  "reset_to_original_json loads w =
     (case json_content w of
        None \<Rightarrow> w
      | Some content \<Rightarrow>
          (if content = [] then w
           else case loads content of
                  Some v \<Rightarrow> w\<lparr>parsed_json := Some v\<rparr>
                | None \<Rightarrow> w))"

text \<open>\<^verbatim>\<open>JsonViewerWindow.run_jq_query\<close>. \<open>query\<close> is the stripped text of the input
  field. The engine either cannot be started (\<open>JqRaised\<close>) or exits with a return code,
  its output and its diagnostics.\<close>

datatype jq_result = JqRaised | JqExit int string string

definition run_jq_query ::
  "(string \<Rightarrow> pyval option) \<Rightarrow> string \<Rightarrow> jq_result \<Rightarrow> window \<Rightarrow> window" where
  "run_jq_query loads query result w =
     (if current_json_file w = None \<or> current_json_file w = Some [] then w
      else if query = [] then reset_to_original_json loads w
      else case result of
             JqRaised \<Rightarrow> w
           | JqExit returncode out err \<Rightarrow>
               (if returncode = 0 then
                  (case loads out of
                     Some output_json \<Rightarrow> w\<lparr>schema_data := Some output_json\<rparr>
                   | None \<Rightarrow> w)
                else w))"

text \<open>What the user does to the window, and a session as the sequence of these events.\<close>

datatype event =
    Toggle path bool
  | LoadFile string "string option"
  | RunQuery string jq_result

fun step :: "(string \<Rightarrow> pyval option) \<Rightarrow> window \<Rightarrow> event \<Rightarrow> window" where
  "step loads w (Toggle path is_visible) = toggle_attribute_visibility path is_visible w"
| "step loads w (LoadFile file_path file_text) = load_json_file loads file_path file_text w"
| "step loads w (RunQuery query result) = run_jq_query loads query result w"

definition run :: "(string \<Rightarrow> pyval option) \<Rightarrow> window \<Rightarrow> event list \<Rightarrow> window" where
  "run loads w events = foldl (step loads) w events"

text \<open>The hidden-path set as the amended claim describes it, to be compared with the one
  the window holds: toggles add and remove paths, reading a file empties the set, and
  nothing else touches it.\<close>

fun spec_hidden_paths :: "path set \<Rightarrow> event list \<Rightarrow> path set" where
  "spec_hidden_paths H [] = H"
| "spec_hidden_paths H (Toggle path is_visible # events) =
     spec_hidden_paths (if is_visible then H - {path} else insert path H) events"
| "spec_hidden_paths H (LoadFile file_path (Some content) # events) = spec_hidden_paths {} events"
| "spec_hidden_paths H (LoadFile file_path None # events) = spec_hidden_paths H events"
| "spec_hidden_paths H (RunQuery query result # events) = spec_hidden_paths H events"

text \<open>A sample session: the file holds \<^verbatim>\<open>[{"a": 1}]\<close>, the user hides \<open>a\<close> and runs
  a query whose output is \<open>1\<close>. \<open>sample_loads\<close> parses these two texts.\<close>

definition sample_text :: string where
  "sample_text = ''[{'' @ [CHR 0x22, CHR ''a'', CHR 0x22] @ '': 1}]''"

definition sample_loads :: "string \<Rightarrow> pyval option" where
  "sample_loads s =
     (if s = sample_text then Some (PList [PDict [(''a'', PInt 1)]])
      else if s = ''1'' then Some (PInt 1)
      else None)"

definition sample_session :: "event list" where
  "sample_session =
     [LoadFile ''data.json'' (Some sample_text),
      Toggle [''a''] False,
      RunQuery ''.[0].a'' (JqExit 0 ''1'' [])]"

section \<open>Conditions used in the statements\<close>

text \<open>The condition under which \<^verbatim>\<open>_compute_array_stats\<close> enters its numeric branch:
  the array is not empty, every element is an instance of the first element's class,
  and every element is an \<^verbatim>\<open>int\<close> or a \<^verbatim>\<open>float\<close>.\<close>

definition uniform_numeric :: "pyval list \<Rightarrow> bool" where
  "uniform_numeric arr =
     (arr \<noteq> [] \<and> list_all (\<lambda>item. isinstance item (type_name (hd arr))) arr
      \<and> list_all isinstance_int_float arr)"

text \<open>A generator that always hands out 0, and one that always hands out 1.\<close>

definition rng0 :: rng where
  "rng0 = (\<lambda>i. 0)"

definition rng1 :: rng where
  "rng1 = (\<lambda>i. 1)"

text \<open>The condition of the string branch: the array is not empty and every element is a
  \<^verbatim>\<open>str\<close>.\<close>

definition uniform_strings :: "pyval list \<Rightarrow> bool" where
  "uniform_strings arr = (arr \<noteq> [] \<and> list_all (\<lambda>item. isinstance item ''str'') arr)"

text \<open>The position at which a string is first encountered in a list (the length of the
  list when it does not occur).\<close>

definition first_seen :: "string list \<Rightarrow> string \<Rightarrow> nat" where
  "first_seen xs x = length (takeWhile (\<lambda>y. y \<noteq> x) xs)"

text \<open>A field as the expressions of the normalizer accept it: a dot, a word character,
  then dots, word characters and plus signs.\<close>

definition field_token :: "string \<Rightarrow> bool" where
  "field_token f =
     (case f of
        c # w # rest \<Rightarrow> c = CHR ''.'' \<and> is_word w \<and> list_all is_field_char rest
      | _ \<Rightarrow> False)"



text \<open>A scalar: \<^verbatim>\<open>null\<close>, a boolean, a number or a string.\<close>

fun is_scalar :: "pyval \<Rightarrow> bool" where
  "is_scalar (PList xs) = False"
| "is_scalar (PTuple xs) = False"
| "is_scalar (PDict kvs) = False"
| "is_scalar v = True"

text \<open>No array anywhere in the value consists of more than five strings. Such arrays are
  the only ones for which \<^verbatim>\<open>_compute_array_stats\<close> calls \<^verbatim>\<open>random.sample\<close>.\<close>

fun no_long_string_array :: "pyval \<Rightarrow> bool" where
  "no_long_string_array (PList xs) =
     (\<not> (length xs > 5 \<and> list_all (\<lambda>item. isinstance item ''str'') xs)
      \<and> list_all no_long_string_array xs)"
| "no_long_string_array (PTuple xs) = list_all no_long_string_array xs"
| "no_long_string_array (PDict kvs) = list_all (\<lambda>kv. no_long_string_array (snd kv)) kvs"
| "no_long_string_array v = True"

section \<open>Sample documents\<close>

definition doc1 :: pyval where
  "doc1 = PDict [(''a'', PInt 1), (''b'', PList [PDict [(''c'', PStr ''x''), (''d'', PNone)]])]"

definition doc_nested :: pyval where
  "doc_nested = PDict [(''k'', PList [PDict [(''x'', PInt 1)], PDict [(''y'', PInt 2)]])]"

definition doc_objects :: pyval where
  "doc_objects = PList [PDict [(''a'', PDict [(''b'', PInt 1)])]]"

definition doc_letters :: pyval where
  "doc_letters =
     PDict [(''k'', PList [PStr ''a'', PStr ''b'', PStr ''c'', PStr ''d'', PStr ''e'', PStr ''f''])]"

section \<open>The visibility filter is idempotent\<close>

lemma dict_set_fresh: "k \<notin> set (map fst d) \<Longrightarrow> dict_set k v d = d @ [(k, v)]"
  by (induction d) auto

lemma filter_items_distinct:
  "distinct (map fst kvs) \<Longrightarrow> set (map fst kvs) \<inter> set (map fst result) = {} \<Longrightarrow>
   filter_items H kvs cur result =
     result @ map (\<lambda>kv. (fst kv, filter_recursive H (snd kv) (cur @ [fst kv])))
                (filter (\<lambda>kv. cur @ [fst kv] \<notin> H) kvs)"
proof (induction kvs arbitrary: result)
  case Nil
  then show ?case by simp
next
  case (Cons kv kvs)
  obtain k v where kv: "kv = (k, v)" by (cases kv)
  show ?case
  proof (cases "cur @ [k] \<in> H")
    case True
    with Cons kv show ?thesis by auto
  next
    case False
    from Cons.prems kv have fresh: "k \<notin> set (map fst result)" by auto
    let ?r = "dict_set k (filter_recursive H v (cur @ [k])) result"
    have r: "?r = result @ [(k, filter_recursive H v (cur @ [k]))]"
      using fresh by (rule dict_set_fresh)
    have "set (map fst kvs) \<inter> set (map fst ?r) = {}"
      using Cons.prems kv unfolding r by auto
    with Cons kv have "filter_items H kvs cur ?r = ?r @ map (\<lambda>kv. (fst kv, filter_recursive H (snd kv) (cur @ [fst kv])))
                (filter (\<lambda>kv. cur @ [fst kv] \<notin> H) kvs)" by simp
    with False kv r show ?thesis by simp
  qed
qed

lemma filter_recursive_dict:
  "distinct (map fst kvs) \<Longrightarrow>
   filter_recursive H (PDict kvs) cur =
     PDict (map (\<lambda>kv. (fst kv, filter_recursive H (snd kv) (cur @ [fst kv])))
                (filter (\<lambda>kv. cur @ [fst kv] \<notin> H) kvs))"
  using filter_items_distinct [of kvs "[]" H cur] by simp

lemma filter_recursive_idem_aux:
  "json_value v \<Longrightarrow>
   json_value (filter_recursive H v cur) \<and>
   filter_recursive H (filter_recursive H v cur) cur = filter_recursive H v cur"
proof (induction v arbitrary: cur)
  case (PList xs)
  then show ?case by (auto simp: list_all_iff)
next
  case (PDict kvs)
  let ?g = "\<lambda>kv. (fst kv, filter_recursive H (snd kv) (cur @ [fst kv]))"
  let ?p = "\<lambda>kv. cur @ [fst kv] \<notin> H"
  let ?kvs' = "map ?g (filter ?p kvs)"
  from PDict.prems have d: "distinct (map fst kvs)" and js: "\<forall>kv\<in>set kvs. json_value (snd kv)"
    by (auto simp: list_all_iff)
  have ih: "\<And>kv c. kv \<in> set kvs \<Longrightarrow> json_value (filter_recursive H (snd kv) c) \<and>
      filter_recursive H (filter_recursive H (snd kv) c) c = filter_recursive H (snd kv) c"
  proof -
    fix kv c assume "kv \<in> set kvs"
    moreover obtain k w where "kv = (k, w)" by (cases kv)
    ultimately show "json_value (filter_recursive H (snd kv) c) \<and>
      filter_recursive H (filter_recursive H (snd kv) c) c = filter_recursive H (snd kv) c"
      using PDict.IH [of "(k, w)" w c] js by fastforce
  qed
  have keys: "map fst ?kvs' = map fst (filter ?p kvs)" by (simp add: comp_def)
  have d': "distinct (map fst ?kvs')" unfolding keys using d by (rule distinct_map_filter)
  have first: "filter_recursive H (PDict kvs) cur = PDict ?kvs'"
    using d by (rule filter_recursive_dict)
  have fp: "filter ?p ?kvs' = ?kvs'" by (auto simp: filter_map comp_def)
  have second: "filter_recursive H (PDict ?kvs') cur = PDict (map ?g (filter ?p ?kvs'))"
    using d' by (rule filter_recursive_dict)
  have "map ?g ?kvs' = ?kvs'" using ih by (auto simp: comp_def)
  with first second fp have idem: "filter_recursive H (filter_recursive H (PDict kvs) cur) cur = filter_recursive H (PDict kvs) cur"
    by simp
  have "json_value (PDict ?kvs')" using d' ih by (auto simp: list_all_iff simp del: map_map)
  with first idem show ?case by simp
qed simp_all

text \<open>
  Claim C4. Visibility filtering is idempotent: for every JSON value \<open>v\<close> and every
  hidden-path set \<open>H\<close>, filtering the filtered value again with the same set gives
  the filtered value.
\<close>

theorem filter_idempotent:
  "json_value v \<Longrightarrow>
   filter_json_by_visibility H (filter_json_by_visibility H v) = filter_json_by_visibility H v"
  using filter_recursive_idem_aux [of v H "[]"] by (simp add: filter_json_by_visibility_def)

theorem filter_idempotent_witness:
  "json_value doc1 \<and>
   filter_json_by_visibility {[''b'', ''c'']} doc1 = PDict [(''a'', PInt 1), (''b'', PList [PDict [(''d'', PNone)]])] \<and>
   filter_json_by_visibility {[''b'', ''c'']} (filter_json_by_visibility {[''b'', ''c'']} doc1)
     = filter_json_by_visibility {[''b'', ''c'']} doc1"
  using filter_idempotent [of doc1 "{[''b'', ''c'']}"]
  by (simp add: doc1_def filter_json_by_visibility_def)

section \<open>Dictionaries\<close>

lemma dict_get_dict_set [simp]:
  "dict_get (dict_set k v d) k' = (if k' = k then Some v else dict_get d k')"
  by (induction d) (auto simp: dict_get_def)

lemma dict_get_Nil [simp]: "dict_get [] k = None"
  by (simp add: dict_get_def)

lemma dict_get_Cons [simp]: "dict_get ((k, v) # d) k' = (if k' = k then Some v else dict_get d k')"
  by (simp add: dict_get_def)

section \<open>Numeric statistics\<close>

lemma sort_key_Nil_iff: "(sort_key f xs = []) = (xs = [])"
  by (metis length_0_conv length_sort)

lemma median_nonempty: "arr \<noteq> [] \<Longrightarrow> median arr \<noteq> None"
  by (simp add: median_def Let_def sort_key_Nil_iff)

lemma mean_nonempty: "arr \<noteq> [] \<Longrightarrow> mean arr \<noteq> None"
  by (simp add: mean_def Let_def)

lemma numeric_stats_get:
  assumes "arr \<noteq> []"
  shows "dict_get (numeric_stats arr stats) k =
     (if k = ''examples'' \<and> length arr > 5 then dict_get (numeric_examples arr []) ''examples''
      else if k = ''stdev'' \<and> length arr > 1 then stdev arr
      else if k = ''median'' \<and> length arr > 1 then median arr
      else if k = ''mean'' then mean arr
      else if k = ''max'' then py_max arr
      else if k = ''min'' then py_min arr
      else dict_get stats k)"
proof -
  obtain x xs where arr: "arr = x # xs" using assms by (cases arr) auto
  obtain m where m: "mean arr = Some m" using mean_nonempty [OF assms] by auto
  obtain md where md: "median arr = Some md" using median_nonempty [OF assms] by auto
  show ?thesis
  proof (cases "length arr > 1")
    case True
    then obtain sd where sd: "stdev arr = Some sd" by (auto simp: stdev_def)
    from True show ?thesis
      using m md sd unfolding arr
      by (simp add: numeric_stats_def median_stdev_def numeric_examples_def Let_def)
  next
    case False
    then show ?thesis
      using m md unfolding arr
      by (simp add: numeric_stats_def median_stdev_def numeric_examples_def Let_def)
  qed
qed

lemma min_from_mem: "min_from m xs \<in> set (m # xs)"
  by (induction xs arbitrary: m) auto

lemma min_from_self: "num_val (min_from m xs) \<le> num_val m"
proof (induction xs arbitrary: m)
  case Nil
  then show ?case by simp
next
  case (Cons y ys)
  show ?case
    using Cons [of y] Cons [of m] by (cases "num_val y < num_val m") auto
qed

lemma min_from_le: "x \<in> set (m # xs) \<Longrightarrow> num_val (min_from m xs) \<le> num_val x"
proof (induction xs arbitrary: m)
  case Nil
  then show ?case by simp
next
  case (Cons y ys)
  show ?case
  proof (cases "x \<in> set ys")
    case True
    then show ?thesis using Cons.IH by simp
  next
    case False
    with Cons.prems have "x = m \<or> x = y" by auto
    then show ?thesis
      using min_from_self [of y ys] min_from_self [of m ys]
      by (cases "num_val y < num_val m") auto
  qed
qed

lemma max_from_mem: "max_from m xs \<in> set (m # xs)"
  by (induction xs arbitrary: m) auto

lemma max_from_self: "num_val m \<le> num_val (max_from m xs)"
proof (induction xs arbitrary: m)
  case Nil
  then show ?case by simp
next
  case (Cons y ys)
  show ?case
    using Cons [of y] Cons [of m] by (cases "num_val m < num_val y") auto
qed

lemma max_from_ge: "x \<in> set (m # xs) \<Longrightarrow> num_val x \<le> num_val (max_from m xs)"
proof (induction xs arbitrary: m)
  case Nil
  then show ?case by simp
next
  case (Cons y ys)
  show ?case
  proof (cases "x \<in> set ys")
    case True
    then show ?thesis using Cons.IH by simp
  next
    case False
    with Cons.prems have "x = m \<or> x = y" by auto
    then show ?thesis
      using max_from_self [of y ys] max_from_self [of m ys]
      by (cases "num_val m < num_val y") auto
  qed
qed

lemma py_min_least:
  "arr \<noteq> [] \<Longrightarrow> \<exists>mn. py_min arr = Some mn \<and> mn \<in> set arr \<and> (\<forall>x\<in>set arr. num_val mn \<le> num_val x)"
  using min_from_mem min_from_le by (cases arr) auto

lemma py_max_greatest:
  "arr \<noteq> [] \<Longrightarrow> \<exists>mx. py_max arr = Some mx \<and> mx \<in> set arr \<and> (\<forall>x\<in>set arr. num_val x \<le> num_val mx)"
  using max_from_mem max_from_ge by (cases arr) auto

lemma num_val_int_val: "isinstance x ''int'' \<Longrightarrow> num_val x = of_int (int_val x)"
  by (cases x) (auto simp: isinstance_def)

lemma sum_num_val_int:
  "list_all (\<lambda>x. isinstance x ''int'') data \<Longrightarrow>
   sum_list (map num_val data) = of_int (sum_list (map int_val data))"
  by (induction data) (auto simp: num_val_int_val)

lemma mean_value:
  "arr \<noteq> [] \<Longrightarrow> \<exists>m. mean arr = Some m \<and> num_val m = sum_list (map num_val arr) / real (length arr)"
  by (auto simp: mean_def Let_def sum_num_val_int real_of_int_div)

lemma compute_array_stats_numeric:
  "uniform_numeric arr \<Longrightarrow>
   compute_array_stats arr g =
     (numeric_stats arr [(''count'', PInt (int (length arr))), (''uniform_type'', PBool True)], g)"
  by (cases arr) (auto simp: uniform_numeric_def compute_array_stats_def Let_def)

lemma numeric_array_keys:
  assumes "uniform_numeric arr"
  shows "dict_get (fst (compute_array_stats arr g)) ''uniform_type'' = Some (PBool True)"
    and "dict_get (fst (compute_array_stats arr g)) ''min'' = py_min arr"
    and "dict_get (fst (compute_array_stats arr g)) ''max'' = py_max arr"
    and "dict_get (fst (compute_array_stats arr g)) ''mean'' = mean arr"
    and "dict_get (fst (compute_array_stats arr g)) ''median'' = (if length arr > 1 then median arr else None)"
    and "dict_get (fst (compute_array_stats arr g)) ''stdev'' = (if length arr > 1 then stdev arr else None)"
proof -
  from assms have ne: "arr \<noteq> []" by (simp add: uniform_numeric_def)
  show "dict_get (fst (compute_array_stats arr g)) ''uniform_type'' = Some (PBool True)"
    and "dict_get (fst (compute_array_stats arr g)) ''min'' = py_min arr"
    and "dict_get (fst (compute_array_stats arr g)) ''max'' = py_max arr"
    and "dict_get (fst (compute_array_stats arr g)) ''mean'' = mean arr"
    and "dict_get (fst (compute_array_stats arr g)) ''median'' = (if length arr > 1 then median arr else None)"
    and "dict_get (fst (compute_array_stats arr g)) ''stdev'' = (if length arr > 1 then stdev arr else None)"
    by (simp_all add: compute_array_stats_numeric [OF assms] numeric_stats_get [OF ne])
qed

lemma stdev_present: "length arr > 1 \<Longrightarrow> stdev arr = Some (PFloat (sqrt (variance arr)))"
  by (simp add: stdev_def py_sqrt_def)





section \<open>Booleans are summarized as numbers\<close>

lemma bools_uniform_numeric:
  "arr \<noteq> [] \<Longrightarrow> list_all (\<lambda>x. type_name x = ''bool'') arr \<Longrightarrow> uniform_numeric arr"
  by (cases arr) (auto simp: uniform_numeric_def isinstance_def isinstance_int_float_def list_all_iff)

lemma sum_bools:
  "list_all (\<lambda>x. type_name x = ''bool'') arr \<Longrightarrow>
   sum_list (map num_val arr) = real (count_list arr (PBool True))"
proof (induction arr)
  case Nil
  then show ?case by simp
next
  case (Cons x xs)
  then obtain b where "x = PBool b" by (cases x) auto
  with Cons show ?case by auto
qed

lemma sibling_min_max_value:
  "dict_get (sibling_min_max key parent_obj stats) ''value'' = dict_get stats ''value''"
  by (simp add: sibling_min_max_def split: pyval.splits option.splits)

text \<open>
  Claim C10. Summarization classifies booleans as numbers. For every non-empty array of
  booleans \<open>uniform_type\<close> is true and the numeric branch applies: \<open>min\<close> and \<open>max\<close>
  are a least and a greatest element, \<open>mean\<close> is the number of \<open>True\<close> elements over
  the count, and \<open>median\<close> and \<open>stdev\<close> are present exactly when the count exceeds 1.
  A boolean scalar satisfies the guard of the numeric branch of
  \<^verbatim>\<open>_compute_value_stats\<close>, which records it under \<open>value\<close>; and no value at all
  reaches the branch guarded by \<^verbatim>\<open>isinstance(value, bool)\<close>, since a value that fails
  the numeric guard is not a boolean.
\<close>

theorem booleans_are_numbers:
  "(arr \<noteq> [] \<and> list_all (\<lambda>x. type_name x = ''bool'') arr \<longrightarrow>
      dict_get (fst (compute_array_stats arr g)) ''uniform_type'' = Some (PBool True) \<and>
      (\<exists>mn. dict_get (fst (compute_array_stats arr g)) ''min'' = Some mn \<and> mn \<in> set arr
             \<and> (\<forall>x\<in>set arr. num_val mn \<le> num_val x)) \<and>
      (\<exists>mx. dict_get (fst (compute_array_stats arr g)) ''max'' = Some mx \<and> mx \<in> set arr
             \<and> (\<forall>x\<in>set arr. num_val x \<le> num_val mx)) \<and>
      (\<exists>m. dict_get (fst (compute_array_stats arr g)) ''mean'' = Some m
            \<and> num_val m = real (count_list arr (PBool True)) / real (length arr)) \<and>
      ((dict_get (fst (compute_array_stats arr g)) ''median'' \<noteq> None) = (length arr > 1)) \<and>
      ((dict_get (fst (compute_array_stats arr g)) ''stdev'' \<noteq> None) = (length arr > 1))) \<and>
   isinstance_int_float (PBool b) \<and>
   compute_value_stats key (PBool b) parent_obj =
     sibling_min_max key parent_obj [(''type'', PStr ''bool''), (''value'', PBool b)] \<and>
   dict_get (compute_value_stats key (PBool b) parent_obj) ''value'' = Some (PBool b) \<and>
   \<not> (\<not> isinstance_int_float v \<and> \<not> isinstance v ''str'' \<and> isinstance v ''bool'')"
proof (intro conjI impI)
  assume a: "arr \<noteq> [] \<and> list_all (\<lambda>x. type_name x = ''bool'') arr"
  then have ne: "arr \<noteq> []" and bools: "list_all (\<lambda>x. type_name x = ''bool'') arr" by auto
  have u: "uniform_numeric arr" using ne bools by (rule bools_uniform_numeric)
  show "dict_get (fst (compute_array_stats arr g)) ''uniform_type'' = Some (PBool True)"
    by (rule numeric_array_keys(1) [OF u])
  show "\<exists>mn. dict_get (fst (compute_array_stats arr g)) ''min'' = Some mn \<and> mn \<in> set arr
             \<and> (\<forall>x\<in>set arr. num_val mn \<le> num_val x)"
    using py_min_least [OF ne] by (simp add: numeric_array_keys(2) [OF u])
  show "\<exists>mx. dict_get (fst (compute_array_stats arr g)) ''max'' = Some mx \<and> mx \<in> set arr
             \<and> (\<forall>x\<in>set arr. num_val x \<le> num_val mx)"
    using py_max_greatest [OF ne] by (simp add: numeric_array_keys(3) [OF u])
  show "\<exists>m. dict_get (fst (compute_array_stats arr g)) ''mean'' = Some m
            \<and> num_val m = real (count_list arr (PBool True)) / real (length arr)"
    using mean_value [OF ne] by (simp add: numeric_array_keys(4) [OF u] sum_bools [OF bools])
  show "(dict_get (fst (compute_array_stats arr g)) ''median'' \<noteq> None) = (length arr > 1)"
    using median_nonempty [OF ne] by (simp add: numeric_array_keys(5) [OF u])
  show "(dict_get (fst (compute_array_stats arr g)) ''stdev'' \<noteq> None) = (length arr > 1)"
    by (simp add: numeric_array_keys(6) [OF u] stdev_present)
next
  show "isinstance_int_float (PBool b)"
    by (simp add: isinstance_int_float_def isinstance_def)
  show c: "compute_value_stats key (PBool b) parent_obj =
     sibling_min_max key parent_obj [(''type'', PStr ''bool''), (''value'', PBool b)]"
    by (simp add: compute_value_stats_def isinstance_int_float_def isinstance_def)
  show "dict_get (compute_value_stats key (PBool b) parent_obj) ''value'' = Some (PBool b)"
    by (simp add: c sibling_min_max_value)
  show "\<not> (\<not> isinstance_int_float v \<and> \<not> isinstance v ''str'' \<and> isinstance v ''bool'')"
    by (auto simp: isinstance_int_float_def isinstance_def)
qed

theorem booleans_are_numbers_witness:
  "[PBool True, PBool False, PBool True] \<noteq> [] \<and>
   list_all (\<lambda>x. type_name x = ''bool'') [PBool True, PBool False, PBool True] \<and>
   dict_get (fst (compute_array_stats [PBool True, PBool False, PBool True] rng0)) ''uniform_type''
     = Some (PBool True) \<and>
   dict_get (fst (compute_array_stats [PBool True, PBool False, PBool True] rng0)) ''min''
     = Some (PBool False) \<and>
   dict_get (fst (compute_array_stats [PBool True, PBool False, PBool True] rng0)) ''median''
     = Some (PBool True) \<and>
   (\<exists>m. dict_get (fst (compute_array_stats [PBool True, PBool False, PBool True] rng0)) ''mean'' = Some m
      \<and> num_val m = 2 / 3) \<and>
   dict_get (compute_value_stats ''k'' (PBool True) (PDict [(''k'', PBool True)])) ''value''
     = Some (PBool True)"
proof -
  have h: "[PBool True, PBool False, PBool True] \<noteq> [] \<and>
      list_all (\<lambda>x. type_name x = ''bool'') [PBool True, PBool False, PBool True]" by simp
  have u: "uniform_numeric [PBool True, PBool False, PBool True]"
    by (simp add: uniform_numeric_def isinstance_def isinstance_int_float_def)
  have mn: "dict_get (fst (compute_array_stats [PBool True, PBool False, PBool True] rng0)) ''min''
     = Some (PBool False)"
    by (simp add: numeric_array_keys(2) [OF u])
  have md: "dict_get (fst (compute_array_stats [PBool True, PBool False, PBool True] rng0)) ''median''
     = Some (PBool True)"
    by (simp add: numeric_array_keys(5) [OF u] median_def)
  from h mn md
    booleans_are_numbers [of "[PBool True, PBool False, PBool True]" rng0 True "''k''"
      "PDict [(''k'', PBool True)]" PNone]
  show ?thesis by (simp add: sibling_min_max_value)
qed

section \<open>Statistics of string arrays\<close>

subsection \<open>The counter\<close>

lemma keys_dict_set:
  "map fst (dict_set k v d) = (if k \<in> set (map fst d) then map fst d else map fst d @ [k])"
  by (induction d) (auto simp: rev_image_eqI)

lemma counter_loop_append: "counter_loop (xs @ ys) c = counter_loop ys (counter_loop xs c)"
  by (induction xs arbitrary: c) auto

lemma counter_snoc:
  "counter (xs @ [x]) =
     dict_set x ((case dict_get (counter xs) x of None \<Rightarrow> 0 | Some n \<Rightarrow> n) + 1) (counter xs)"
  by (simp add: counter_def counter_loop_append)

lemma counter_Nil: "counter [] = []"
  by (simp add: counter_def)

lemma counter_keys_set: "set (map fst (counter xs)) = set xs"
  by (induction xs rule: rev_induct) (auto simp: counter_Nil counter_snoc keys_dict_set)

lemma counter_keys_snoc:
  "map fst (counter (xs @ [x])) =
     (if x \<in> set xs then map fst (counter xs) else map fst (counter xs) @ [x])"
  using counter_keys_set [of xs] by (simp add: counter_snoc keys_dict_set)

lemma counter_keys_distinct: "distinct (map fst (counter xs))"
proof (induction xs rule: rev_induct)
  case Nil
  then show ?case by (simp add: counter_Nil)
next
  case (snoc x xs)
  then show ?case
    using counter_keys_set [of xs] by (simp add: counter_keys_snoc)
qed

lemma counter_get:
  "dict_get (counter xs) k = (if k \<in> set xs then Some (count_list xs k) else None)"
proof (induction xs rule: rev_induct)
  case Nil
  then show ?case by (simp add: counter_Nil)
next
  case (snoc x xs)
  then show ?case by (auto simp: counter_snoc)
qed

lemma counter_counts:
  assumes "vc \<in> set (counter xs)"
  shows "snd vc = count_list xs (fst vc)"
proof -
  obtain v n where vc: "vc = (v, n)" by (cases vc)
  with assms counter_keys_distinct [of xs] have "map_of (counter xs) v = Some n" by simp
  then have "dict_get (counter xs) v = Some n" by (simp add: dict_get_def)
  then show ?thesis using vc by (auto simp: counter_get split: if_splits)
qed

lemma first_seen_snoc_old: "a \<in> set xs \<Longrightarrow> first_seen (xs @ [x]) a = first_seen xs a"
  by (induction xs) (auto simp: first_seen_def)

lemma first_seen_less: "a \<in> set xs \<Longrightarrow> first_seen xs a < length xs"
  by (induction xs) (auto simp: first_seen_def)

lemma first_seen_snoc_new: "x \<notin> set xs \<Longrightarrow> first_seen (xs @ [x]) x = length xs"
  by (induction xs) (auto simp: first_seen_def)

lemma counter_keys_in_order:
  "sorted_wrt (\<lambda>a b. first_seen xs a < first_seen xs b) (map fst (counter xs))"
proof (induction xs rule: rev_induct)
  case Nil
  then show ?case by (simp add: counter_Nil)
next
  case (snoc x xs)
  have old: "sorted_wrt (\<lambda>a b. first_seen (xs @ [x]) a < first_seen (xs @ [x]) b) (map fst (counter xs))"
  proof (rule sorted_wrt_mono_rel [OF _ snoc])
    fix a b
    assume "a \<in> set (map fst (counter xs))" and "b \<in> set (map fst (counter xs))"
      and "first_seen xs a < first_seen xs b"
    then show "first_seen (xs @ [x]) a < first_seen (xs @ [x]) b"
      by (simp only: counter_keys_set first_seen_snoc_old)
  qed
  show ?case
  proof (cases "x \<in> set xs")
    case True
    with old show ?thesis by (simp add: counter_keys_snoc)
  next
    case False
    have "\<forall>a\<in>set xs. first_seen (xs @ [x]) a < first_seen (xs @ [x]) x"
      using False by (simp add: first_seen_snoc_old first_seen_snoc_new first_seen_less)
    then have "\<forall>a\<in>set (map fst (counter xs)). first_seen (xs @ [x]) a < first_seen (xs @ [x]) x"
      by (simp only: counter_keys_set)
    with old False show ?thesis by (simp add: counter_keys_snoc sorted_wrt_append)
  qed
qed

subsection \<open>Stable sorting refines the count order by the dictionary order\<close>

lemma sorted_stable_lex:
  "sorted (map f xs) \<Longrightarrow> (\<And>k. sorted_wrt R (filter (\<lambda>y. f y = k) xs)) \<Longrightarrow>
   sorted_wrt (\<lambda>a b. f a < f b \<or> (f a = f b \<and> R a b)) xs"
proof (induction xs)
  case Nil
  then show ?case by simp
next
  case (Cons x xs)
  have tail: "\<And>k. sorted_wrt R (filter (\<lambda>y. f y = k) xs)"
  proof -
    fix k
    from Cons.prems(2) [of k] show "sorted_wrt R (filter (\<lambda>y. f y = k) xs)"
      by (cases "f x = k") auto
  qed
  have head: "\<forall>y\<in>set xs. f x < f y \<or> (f x = f y \<and> R x y)"
  proof
    fix y assume y: "y \<in> set xs"
    with Cons.prems(1) have le: "f x \<le> f y" by auto
    show "f x < f y \<or> (f x = f y \<and> R x y)"
    proof (cases "f x = f y")
      case True
      from Cons.prems(2) [of "f x"] have "\<forall>z\<in>set (filter (\<lambda>y. f y = f x) xs). R x z" by simp
      with y True show ?thesis by auto
    next
      case False
      with le show ?thesis by auto
    qed
  qed
  from Cons.IH tail Cons.prems(1) head show ?case by simp
qed


subsection \<open>The ranking of the counter\<close>

lemma ranking_entries:
  "set (most_common_all (counter xs)) = set (counter xs)"
  "distinct (map fst (most_common_all (counter xs)))"
  "set (map fst (most_common_all (counter xs))) = set xs"
  "length (most_common_all (counter xs)) = card (set xs)"
proof -
  show s: "set (most_common_all (counter xs)) = set (counter xs)"
    by (simp add: most_common_all_def)
  have d: "distinct (counter xs)" and i: "inj_on fst (set (counter xs))"
    using counter_keys_distinct [of xs] by (simp_all add: distinct_map)
  show "distinct (map fst (most_common_all (counter xs)))"
    using d i by (simp add: distinct_map most_common_all_def)
  show "set (map fst (most_common_all (counter xs))) = set xs"
    using counter_keys_set [of xs] by (simp add: most_common_all_def)
  have "length (most_common_all (counter xs)) = length (map fst (counter xs))"
    by (simp add: most_common_all_def)
  also have "\<dots> = card (set (map fst (counter xs)))"
    using counter_keys_distinct [of xs] by (simp only: distinct_card)
  finally show "length (most_common_all (counter xs)) = card (set xs)"
    by (simp only: counter_keys_set)
qed

lemma ranking_counts:
  "vc \<in> set (most_common_all (counter xs)) \<Longrightarrow> snd vc = count_list xs (fst vc)"
  by (simp add: ranking_entries(1) counter_counts)

lemma ranking_order:
  "sorted_wrt (\<lambda>a b. snd a > snd b \<or> (snd a = snd b \<and> first_seen xs (fst a) < first_seen xs (fst b)))
     (most_common_all (counter xs))"
proof -
  let ?f = "\<lambda>kv::string \<times> nat. - int (snd kv)"
  let ?R = "\<lambda>a b::string \<times> nat. first_seen xs (fst a) < first_seen xs (fst b)"
  have c: "sorted_wrt ?R (counter xs)"
    using counter_keys_in_order [of xs] by (simp add: sorted_wrt_map)
  have st: "\<And>k. sorted_wrt ?R (filter (\<lambda>y. ?f y = k) (sort_key ?f (counter xs)))"
    using c by (simp only: sort_key_stable sorted_wrt_filter)
  have "sorted (map ?f (sort_key ?f (counter xs)))" by (rule sorted_sort_key)
  from sorted_stable_lex [of ?f "sort_key ?f (counter xs)" ?R, OF this st]
  have "sorted_wrt (\<lambda>a b. ?f a < ?f b \<or> (?f a = ?f b \<and> ?R a b)) (most_common_all (counter xs))"
    by (simp only: most_common_all_def)
  then show ?thesis by (rule sorted_wrt_mono_rel [rotated]) auto
qed

subsection \<open>The string branch\<close>

lemma compute_array_stats_strings:
  assumes "uniform_strings arr"
  shows "compute_array_stats arr g =
     string_stats arr [(''count'', PInt (int (length arr))), (''uniform_type'', PBool True)] g"
proof -
  from assms obtain x xs where arr: "arr = x # xs" by (cases arr) (auto simp: uniform_strings_def)
  with assms obtain s where x: "x = PStr s"
    by (cases x) (auto simp: uniform_strings_def isinstance_def)
  have same: "list_all (\<lambda>item. isinstance item (type_name x)) arr"
    using assms x by (simp add: uniform_strings_def)
  have notnum: "\<not> isinstance_int_float x"
    using x by (simp add: isinstance_int_float_def isinstance_def)
  show ?thesis
    using same notnum assms unfolding arr
    by (simp add: compute_array_stats_def uniform_strings_def Let_def)
qed

lemma string_examples_get:
  "k \<noteq> ''examples'' \<Longrightarrow> dict_get (fst (string_examples arr stats g)) k = dict_get stats k"
  by (simp add: string_examples_def Let_def split: prod.splits)

lemma common_stats_get:
  assumes "arr \<noteq> []" and "length arr < 1000"
  shows "dict_get (common_stats arr stats) ''most_common'' =
           Some (PList (map common_entry (take 5 (most_common_all (counter (map str_val arr))))))"
    and "dict_get (common_stats arr stats) ''least_common'' =
           (if card (set (map str_val arr)) > 5
            then Some (PList (map common_entry (take 5 (rev (most_common_all (counter (map str_val arr)))))))
            else dict_get stats ''least_common'')"
proof -
  let ?c = "counter (map str_val arr)"
  have len: "length ?c = card (set (map str_val arr))"
    using ranking_entries(4) [of "map str_val arr"] by (simp add: most_common_all_def)
  have "card (set (map str_val arr)) > 0" using assms(1) by (simp add: card_gt_0_iff)
  with len have "most_common_all ?c \<noteq> []"
    using ranking_entries(4) [of "map str_val arr"] by auto
  then have ne: "most_common 5 ?c \<noteq> []" by (simp add: most_common_def)
  show "dict_get (common_stats arr stats) ''most_common'' =
           Some (PList (map common_entry (take 5 (most_common_all ?c))))"
    using assms(2) ne by (simp add: common_stats_def Let_def most_common_def)
  show "dict_get (common_stats arr stats) ''least_common'' =
           (if card (set (map str_val arr)) > 5
            then Some (PList (map common_entry (take 5 (rev (most_common_all ?c)))))
            else dict_get stats ''least_common'')"
    using assms(2) ne len by (simp add: common_stats_def Let_def most_common_def)
qed

lemma string_array_keys:
  assumes "uniform_strings arr" and "length arr < 1000"
  shows "dict_get (fst (compute_array_stats arr g)) ''most_common'' =
           Some (PList (map common_entry (take 5 (most_common_all (counter (map str_val arr))))))"
    and "dict_get (fst (compute_array_stats arr g)) ''least_common'' =
           (if card (set (map str_val arr)) > 5
            then Some (PList (map common_entry (take 5 (rev (most_common_all (counter (map str_val arr)))))))
            else None)"
proof -
  from assms(1) have ne: "arr \<noteq> []" by (simp add: uniform_strings_def)
  then obtain x xs where arr: "arr = x # xs" by (cases arr) auto
  show "dict_get (fst (compute_array_stats arr g)) ''most_common'' =
           Some (PList (map common_entry (take 5 (most_common_all (counter (map str_val arr))))))"
    unfolding compute_array_stats_strings [OF assms(1)]
    using ne
    by (simp add: string_stats_def Let_def string_examples_get common_stats_get(1) [OF ne assms(2)]
             split: list.splits)
  show "dict_get (fst (compute_array_stats arr g)) ''least_common'' =
           (if card (set (map str_val arr)) > 5
            then Some (PList (map common_entry (take 5 (rev (most_common_all (counter (map str_val arr)))))))
            else None)"
    unfolding compute_array_stats_strings [OF assms(1)]
    using ne
    by (simp add: string_stats_def Let_def string_examples_get common_stats_get(2) [OF ne assms(2)]
             split: list.splits)
qed


text \<open>
  Claim C6. For every uniformly string-typed array with fewer than 1000 elements there is
  a ranking of the distinct strings with their numbers of occurrences (the frequency
  map, by string equality), ordered by descending count and, among equal counts, by
  first encounter, such that \<open>most_common\<close> is its first five entries, and
  \<open>least_common\<close> is present exactly when there are more than five distinct strings
  and then lists the last five entries of the ranking backwards (ascending count, equal
  counts in reverse order of first encounter). For
  \<open>["a","a","b","c","a","b"]\<close> the frequencies are a:3, b:2, c:1 and \<open>most_common\<close> is
  \<open>[(a,3),(b,2),(c,1)]\<close>.
\<close>

theorem string_array_stats:
  "(uniform_strings arr \<and> length arr < 1000 \<longrightarrow>
      (\<exists>ranked.
         distinct (map fst ranked) \<and> set (map fst ranked) = set (map str_val arr) \<and>
         (\<forall>vc\<in>set ranked. snd vc = count_list (map str_val arr) (fst vc)) \<and>
         sorted_wrt (\<lambda>a b. snd a > snd b \<or>
                       (snd a = snd b \<and>
                        first_seen (map str_val arr) (fst a) < first_seen (map str_val arr) (fst b)))
           ranked \<and>
         dict_get (fst (compute_array_stats arr g)) ''most_common'' =
           Some (PList (map common_entry (take 5 ranked))) \<and>
         dict_get (fst (compute_array_stats arr g)) ''least_common'' =
           (if card (set (map str_val arr)) > 5
            then Some (PList (map common_entry (take 5 (rev ranked)))) else None))) \<and>
   counter [''a'', ''a'', ''b'', ''c'', ''a'', ''b''] = [(''a'', 3), (''b'', 2), (''c'', 1)] \<and>
   dict_get (fst (compute_array_stats
                    [PStr ''a'', PStr ''a'', PStr ''b'', PStr ''c'', PStr ''a'', PStr ''b''] g))
      ''most_common'' =
     Some (PList [PDict [(''value'', PStr ''a''), (''count'', PInt 3)],
                  PDict [(''value'', PStr ''b''), (''count'', PInt 2)],
                  PDict [(''value'', PStr ''c''), (''count'', PInt 1)]])"
proof (intro conjI impI)
  assume a: "uniform_strings arr \<and> length arr < 1000"
  let ?xs = "map str_val arr"
  let ?ranked = "most_common_all (counter ?xs)"
  have "distinct (map fst ?ranked)" by (rule ranking_entries(2))
  moreover have "set (map fst ?ranked) = set ?xs" by (rule ranking_entries(3))
  moreover have "\<forall>vc\<in>set ?ranked. snd vc = count_list ?xs (fst vc)"
    using ranking_counts by blast
  moreover have "sorted_wrt (\<lambda>a b. snd a > snd b \<or>
                       (snd a = snd b \<and> first_seen ?xs (fst a) < first_seen ?xs (fst b))) ?ranked"
    by (rule ranking_order)
  moreover have "dict_get (fst (compute_array_stats arr g)) ''most_common'' =
           Some (PList (map common_entry (take 5 ?ranked)))"
    using a by (simp add: string_array_keys(1))
  moreover have "dict_get (fst (compute_array_stats arr g)) ''least_common'' =
           (if card (set ?xs) > 5
            then Some (PList (map common_entry (take 5 (rev ?ranked)))) else None)"
    using a by (simp add: string_array_keys(2))
  ultimately show "\<exists>ranked.
         distinct (map fst ranked) \<and> set (map fst ranked) = set (map str_val arr) \<and>
         (\<forall>vc\<in>set ranked. snd vc = count_list (map str_val arr) (fst vc)) \<and>
         sorted_wrt (\<lambda>a b. snd a > snd b \<or>
                       (snd a = snd b \<and>
                        first_seen (map str_val arr) (fst a) < first_seen (map str_val arr) (fst b)))
           ranked \<and>
         dict_get (fst (compute_array_stats arr g)) ''most_common'' =
           Some (PList (map common_entry (take 5 ranked))) \<and>
         dict_get (fst (compute_array_stats arr g)) ''least_common'' =
           (if card (set (map str_val arr)) > 5
            then Some (PList (map common_entry (take 5 (rev ranked)))) else None)"
    by blast
next
  show c: "counter [''a'', ''a'', ''b'', ''c'', ''a'', ''b''] = [(''a'', 3), (''b'', 2), (''c'', 1)]"
    by (simp add: counter_def)
  have u: "uniform_strings [PStr ''a'', PStr ''a'', PStr ''b'', PStr ''c'', PStr ''a'', PStr ''b'']"
    by (simp add: uniform_strings_def isinstance_def)
  show "dict_get (fst (compute_array_stats
                    [PStr ''a'', PStr ''a'', PStr ''b'', PStr ''c'', PStr ''a'', PStr ''b''] g))
      ''most_common'' =
     Some (PList [PDict [(''value'', PStr ''a''), (''count'', PInt 3)],
                  PDict [(''value'', PStr ''b''), (''count'', PInt 2)],
                  PDict [(''value'', PStr ''c''), (''count'', PInt 1)]])"
    by (simp add: string_array_keys(1) [OF u] c most_common_all_def common_entry_def)
qed

theorem string_array_stats_witness:
  "uniform_strings [PStr ''b'', PStr ''a'', PStr ''b''] \<and>
   length [PStr ''b'', PStr ''a'', PStr ''b''] < 1000 \<and>
   (\<exists>ranked.
      distinct (map fst ranked) \<and>
      sorted_wrt (\<lambda>a b. snd a > snd b \<or>
                    (snd a = snd b \<and>
                     first_seen [''b'', ''a'', ''b''] (fst a) < first_seen [''b'', ''a'', ''b''] (fst b)))
        ranked \<and>
      dict_get (fst (compute_array_stats [PStr ''b'', PStr ''a'', PStr ''b''] rng0)) ''most_common'' =
        Some (PList (map common_entry (take 5 ranked))) \<and>
      dict_get (fst (compute_array_stats [PStr ''b'', PStr ''a'', PStr ''b''] rng0)) ''least_common'' =
        None)"
proof -
  have h: "uniform_strings [PStr ''b'', PStr ''a'', PStr ''b''] \<and>
      length [PStr ''b'', PStr ''a'', PStr ''b''] < 1000"
    by (simp add: uniform_strings_def isinstance_def)
  have c: "card (set (map str_val [PStr ''b'', PStr ''a'', PStr ''b''])) = 2"
    by (simp add: card_insert_if)
  from h c string_array_stats [of "[PStr ''b'', PStr ''a'', PStr ''b'']" rng0]
  show ?thesis by auto
qed

section \<open>Schema inference\<close>

subsection \<open>Keys and entries of an analyzed object\<close>

lemma dict_has_get: "dict_has k d = (dict_get d k \<noteq> None)"
  by (simp add: dict_has_def dict_get_def map_of_eq_None_iff)

lemma set_keys_dict_set: "set (map fst (dict_set k v d)) = insert k (set (map fst d))"
  by (auto simp: keys_dict_set)

lemma analyze_items_Cons:
  "analyze_items obj ((key, v) # rest) schema g =
     (case property_schema obj key v g of
        (node, g') \<Rightarrow> analyze_items obj rest (dict_set key node schema) g')"
proof (cases v)
  case (PList xs)
  then show ?thesis
    by (cases xs) (auto simp: property_schema_def analyze_object_def Let_def
                        split: prod.splits pyval.splits)
qed (simp_all add: property_schema_def analyze_object_def Let_def split: prod.splits)

lemma analyze_items_keys:
  "set (map fst (fst (analyze_items obj items schema g))) = set (map fst schema) \<union> set (map fst items)"
proof (induction items arbitrary: schema g)
  case Nil
  then show ?case by simp
next
  case (Cons kv items)
  obtain k v where kv: "kv = (k, v)" by (cases kv)
  obtain node g1 where ps: "property_schema obj k v g = (node, g1)"
    by (cases "property_schema obj k v g")
  show ?case
    unfolding kv analyze_items_Cons ps
    using Cons.IH [of "dict_set k node schema" g1] set_keys_dict_set [of k node schema] by auto
qed

lemma analyze_object_has: "dict_has key (fst (analyze_object obj g)) = dict_has key obj"
  using analyze_items_keys [of obj obj "[]" g] by (simp add: dict_has_def analyze_object_def)

lemma analyze_items_other:
  "key \<notin> set (map fst items) \<Longrightarrow>
   dict_get (fst (analyze_items obj items schema g)) key = dict_get schema key"
proof (induction items arbitrary: schema g)
  case Nil
  then show ?case by simp
next
  case (Cons kv items)
  obtain k v where kv: "kv = (k, v)" by (cases kv)
  from Cons.prems kv have "key \<noteq> k" and "key \<notin> set (map fst items)" by auto
  then show ?case
    unfolding kv analyze_items_Cons
    by (simp add: Cons.IH split: prod.splits)
qed

lemma analyze_items_entry:
  "distinct (map fst items) \<Longrightarrow> (key, v) \<in> set items \<Longrightarrow>
   \<exists>g'. dict_get (fst (analyze_items obj items schema g)) key = Some (fst (property_schema obj key v g'))"
proof (induction items arbitrary: schema g)
  case Nil
  then show ?case by simp
next
  case (Cons kv items)
  obtain k w where kv: "kv = (k, w)" by (cases kv)
  obtain node g1 where ps: "property_schema obj k w g = (node, g1)" by (cases "property_schema obj k w g")
  show ?case
  proof (cases "(key, v) = (k, w)")
    case True
    with Cons.prems kv have "key \<notin> set (map fst items)" by auto
    then have "dict_get (fst (analyze_items obj (kv # items) schema g)) key = Some node"
      unfolding kv analyze_items_Cons ps using True by (simp add: analyze_items_other)
    with ps True show ?thesis by (intro exI [of _ g]) simp
  next
    case False
    with Cons.prems kv have "(key, v) \<in> set items" and "distinct (map fst items)" by auto
    from Cons.IH [OF this(2) this(1)] show ?thesis
      unfolding kv analyze_items_Cons ps by simp
  qed
qed


lemma property_schema_scalar:
  "is_scalar v \<Longrightarrow>
   property_schema obj key v g =
     (PDict [(''type'', PStr (type_name v)), (''value'', v),
             (''stats'', PDict (compute_value_stats key v (PDict obj))),
             (''examples'', PList [v])], g)"
  by (cases v) (simp_all add: property_schema_def get_examples_def isinstance_def)

subsection \<open>The loops of \<open>analyze_json\<close>\<close>

lemma merge_first_get:
  "dict_get (merge_first s combined) key =
     (if dict_has key combined then dict_get combined key else dict_get s key)"
proof (induction s arbitrary: combined)
  case Nil
  then show ?case by (simp add: dict_has_get)
next
  case (Cons kv s)
  obtain k v where kv: "kv = (k, v)" by (cases kv)
  show ?case unfolding kv by (simp add: Cons.IH) (auto simp: dict_has_get)
qed

lemma merge_first_has:
  "dict_has key (merge_first s combined) = (dict_has key combined \<or> dict_has key s)"
  by (auto simp: dict_has_get merge_first_get)

lemma combine_items_kept:
  "dict_has key combined \<Longrightarrow>
   dict_get (fst (combine_items items combined g)) key = dict_get combined key"
proof (induction items combined g rule: combine_items.induct)
  case (2 obj items combined g)
  obtain s g1 where a: "analyze_object obj g = (s, g1)" by (cases "analyze_object obj g")
  from 2 a show ?case by (simp add: merge_first_has merge_first_get)
qed simp_all

lemma combine_items_absent:
  "\<not> dict_has key combined \<Longrightarrow> \<forall>ob. PDict ob \<in> set items \<longrightarrow> \<not> dict_has key ob \<Longrightarrow>
   dict_get (fst (combine_items items combined g)) key = None"
proof (induction items combined g rule: combine_items.induct)
  case (1 combined g)
  then show ?case by (simp add: dict_has_get)
next
  case (2 obj items combined g)
  obtain s g1 where a: "analyze_object obj g = (s, g1)" by (cases "analyze_object obj g")
  have "\<not> dict_has key s" using analyze_object_has [of key obj g] a 2(3) by simp
  with 2 a show ?case by (simp add: merge_first_has)
qed simp_all

lemma combine_items_first:
  "\<not> dict_has key combined \<Longrightarrow> \<forall>ob. PDict ob \<in> set pre \<longrightarrow> \<not> dict_has key ob \<Longrightarrow>
   dict_has key obj \<Longrightarrow>
   \<exists>g'. dict_get (fst (combine_items (pre @ PDict obj # post) combined g)) key =
           dict_get (fst (analyze_object obj g')) key"
proof (induction pre arbitrary: combined g)
  case Nil
  obtain s g1 where a: "analyze_object obj g = (s, g1)" by (cases "analyze_object obj g")
  have h: "dict_has key s" using analyze_object_has [of key obj g] a Nil(3) by simp
  then have "dict_has key (merge_first s combined)" by (simp add: merge_first_has)
  then have "dict_get (fst (combine_items post (merge_first s combined) g1)) key =
      dict_get (merge_first s combined) key" by (rule combine_items_kept)
  also have "\<dots> = dict_get s key" using Nil(1) by (simp add: merge_first_get)
  finally show ?case using a by (intro exI [of _ g]) simp
next
  case (Cons p pre)
  show ?case
  proof (cases p)
    case (PDict ob)
    obtain s g1 where a: "analyze_object ob g = (s, g1)" by (cases "analyze_object ob g")
    from Cons.prems(2) PDict have "\<not> dict_has key ob" by simp
    then have "\<not> dict_has key s" using analyze_object_has [of key ob g] a by simp
    with Cons.prems(1) have n: "\<not> dict_has key (merge_first s combined)"
      by (simp add: merge_first_has)
    from Cons.prems(2) have "\<forall>ob. PDict ob \<in> set pre \<longrightarrow> \<not> dict_has key ob" by simp
    from Cons.IH [OF n this Cons.prems(3), of g1] show ?thesis
      using PDict a by simp
  next
    case PNone
    from Cons.IH [of combined g] Cons.prems show ?thesis unfolding PNone by simp
  next
    case (PBool b)
    from Cons.IH [of combined g] Cons.prems show ?thesis unfolding PBool by simp
  next
    case (PInt i)
    from Cons.IH [of combined g] Cons.prems show ?thesis unfolding PInt by simp
  next
    case (PFloat r)
    from Cons.IH [of combined g] Cons.prems show ?thesis unfolding PFloat by simp
  next
    case (PStr s)
    from Cons.IH [of combined g] Cons.prems show ?thesis unfolding PStr by simp
  next
    case (PList xs)
    from Cons.IH [of combined g] Cons.prems show ?thesis unfolding PList by simp
  next
    case (PTuple xs)
    from Cons.IH [of combined g] Cons.prems show ?thesis unfolding PTuple by simp
  qed
qed

lemma combine_items_keys:
  "set (map fst (fst (combine_items items combined g))) =
     set (map fst combined) \<union> {k. \<exists>ob. PDict ob \<in> set items \<and> dict_has k ob}"
proof -
  have "\<And>k. dict_has k (fst (combine_items items combined g)) =
      (dict_has k combined \<or> (\<exists>ob. PDict ob \<in> set items \<and> dict_has k ob))"
  proof (induction items combined g rule: combine_items.induct)
    case (2 obj items combined g)
    obtain s g1 where a: "analyze_object obj g = (s, g1)" by (cases "analyze_object obj g")
    have "dict_has k s = dict_has k obj" using analyze_object_has [of k obj g] a by simp
    with 2 a show ?case by (auto simp: merge_first_has)
  qed simp_all
  then have "\<And>k. (k \<in> set (map fst (fst (combine_items items combined g)))) =
      (k \<in> set (map fst combined) \<union> {k. \<exists>ob. PDict ob \<in> set items \<and> dict_has k ob})"
    by (simp add: dict_has_def)
  then show ?thesis by blast
qed

section \<open>Scalars\<close>

text \<open>
  Claim C8, as amended. A scalar passed to \<open>analyze_json\<close> itself yields the empty schema.
  A scalar that is the value of a key of an object yields, under that key, a leaf schema
  carrying its type, the literal value, the derived statistics and the example list
  holding the value.
\<close>

theorem scalar_schema:
  "is_scalar v \<longrightarrow>
     analyze_json v g = ([], g) \<and>
     (distinct (map fst obj) \<and> (key, v) \<in> set obj \<longrightarrow>
        dict_get (fst (analyze_json (PDict obj) g)) key =
          Some (PDict [(''type'', PStr (type_name v)), (''value'', v),
                       (''stats'', PDict (compute_value_stats key v (PDict obj))),
                       (''examples'', PList [v])]))"
proof (intro impI conjI)
  assume s: "is_scalar v"
  then show "analyze_json v g = ([], g)" by (cases v) simp_all
  assume "distinct (map fst obj) \<and> (key, v) \<in> set obj"
  then have "distinct (map fst obj)" and "(key, v) \<in> set obj" by auto
  from analyze_items_entry [OF this, of obj "[]" g]
  show "dict_get (fst (analyze_json (PDict obj) g)) key =
          Some (PDict [(''type'', PStr (type_name v)), (''value'', v),
                       (''stats'', PDict (compute_value_stats key v (PDict obj))),
                       (''examples'', PList [v])])"
    by (auto simp: analyze_object_def property_schema_scalar [OF s])
qed

theorem scalar_schema_witness:
  "is_scalar (PStr ''Ada'') \<and> analyze_json (PStr ''Ada'') rng0 = ([], rng0) \<and>
   distinct (map fst [(''id'', PInt 7), (''name'', PStr ''Ada'')]) \<and>
   (''name'', PStr ''Ada'') \<in> set [(''id'', PInt 7), (''name'', PStr ''Ada'')] \<and>
   dict_get (fst (analyze_json (PDict [(''id'', PInt 7), (''name'', PStr ''Ada'')]) rng0)) ''name'' =
     Some (PDict [(''type'', PStr ''str''), (''value'', PStr ''Ada''),
                  (''stats'', PDict [(''type'', PStr ''str''), (''length'', PInt 3),
                                     (''preview'', PStr ''Ada'')]),
                  (''examples'', PList [PStr ''Ada''])])"
proof -
  have c: "compute_value_stats ''name'' (PStr ''Ada'') (PDict [(''id'', PInt 7), (''name'', PStr ''Ada'')])
      = [(''type'', PStr ''str''), (''length'', PInt 3), (''preview'', PStr ''Ada'')]"
    by (simp add: compute_value_stats_def isinstance_int_float_def isinstance_def)
  from scalar_schema [of "PStr ''Ada''" rng0 "[(''id'', PInt 7), (''name'', PStr ''Ada'')]" "''name''"]
  show ?thesis by (simp add: c)
qed

text \<open>The claim as written promises a leaf schema for a scalar passed to the analysis; the
  result is the empty schema.\<close>

theorem scalar_root_gives_empty_schema:
  "is_scalar (PInt 5) \<and> fst (analyze_json (PInt 5) rng0) = []"
  by simp

section \<open>Schemas of arrays of objects\<close>

lemma analyze_json_root_array:
  "analyze_json (PList (x # xs)) g =
     (case combine_items (take 10 (x # xs)) [] g of
        (combined, g1) \<Rightarrow>
          (case compute_array_stats (x # xs) g1 of
             (array_stats, g2) \<Rightarrow> (dict_set ''__array_stats'' (PDict array_stats) combined, g2)))"
  by (simp add: Let_def)

lemma property_schema_object_array:
  "\<exists>node g'. fst (property_schema obj key (PList (PDict first # rest)) g) = PDict node \<and>
     dict_get node ''properties'' = Some (PDict (fst (analyze_object first g')))"
proof -
  obtain st g1 where c: "compute_array_stats (PDict first # rest) g = (st, g1)"
    by (cases "compute_array_stats (PDict first # rest) g")
  obtain sample g2 where a: "analyze_object first g1 = (sample, g2)"
    by (cases "analyze_object first g1")
  show ?thesis
    using c a by (auto simp: property_schema_def Let_def intro!: exI [of _ g1])
qed

text \<open>
  Claim C1, as amended. For every non-empty array at the root, the schema returned by
  \<open>analyze_json\<close> has as its keys the reserved \<open>__array_stats\<close> and the union of the
  keys of the objects among the first 10 elements; for each key other than
  \<open>__array_stats\<close> the child schema is the one derived from the first of those objects
  that defines the key, whatever later elements hold under that key. For an array that is
  the value of a key of an object and whose first element is an object, the
  \<open>properties\<close> are the schema of that first element alone.
\<close>

theorem array_schema_first_wins:
  "set (map fst (fst (analyze_json (PList (x # xs)) g))) =
     insert ''__array_stats'' {k. \<exists>ob. PDict ob \<in> set (take 10 (x # xs)) \<and> dict_has k ob} \<and>
   (key \<noteq> ''__array_stats'' \<and> take 10 (x # xs) = pre @ PDict obj # post \<and>
    (\<forall>ob. PDict ob \<in> set pre \<longrightarrow> \<not> dict_has key ob) \<and> dict_has key obj \<longrightarrow>
      (\<exists>g'. dict_get (fst (analyze_json (PList (x # xs)) g)) key =
               dict_get (fst (analyze_object obj g')) key \<and>
             dict_get (fst (analyze_object obj g')) key \<noteq> None)) \<and>
   (distinct (map fst parent) \<and> (key, PList (PDict first # rest)) \<in> set parent \<longrightarrow>
      (\<exists>node g'. dict_get (fst (analyze_object parent g)) key = Some (PDict node) \<and>
         dict_get node ''properties'' = Some (PDict (fst (analyze_object first g')))))"
proof (intro conjI impI)
  obtain combined g1 where c: "combine_items (take 10 (x # xs)) [] g = (combined, g1)"
    by (cases "combine_items (take 10 (x # xs)) [] g")
  obtain st g2 where s: "compute_array_stats (x # xs) g1 = (st, g2)"
    by (cases "compute_array_stats (x # xs) g1")
  have r: "fst (analyze_json (PList (x # xs)) g) = dict_set ''__array_stats'' (PDict st) combined"
    using c s by (simp add: analyze_json_root_array del: analyze_json.simps)
  have k: "set (map fst combined) = {k. \<exists>ob. PDict ob \<in> set (take 10 (x # xs)) \<and> dict_has k ob}"
    using combine_items_keys [of "take 10 (x # xs)" "[]" g] c by simp
  show "set (map fst (fst (analyze_json (PList (x # xs)) g))) =
     insert ''__array_stats'' {k. \<exists>ob. PDict ob \<in> set (take 10 (x # xs)) \<and> dict_has k ob}"
    unfolding r set_keys_dict_set k ..
  assume a: "key \<noteq> ''__array_stats'' \<and> take 10 (x # xs) = pre @ PDict obj # post \<and>
    (\<forall>ob. PDict ob \<in> set pre \<longrightarrow> \<not> dict_has key ob) \<and> dict_has key obj"
  then have n: "\<not> dict_has key []" and p: "\<forall>ob. PDict ob \<in> set pre \<longrightarrow> \<not> dict_has key ob"
    and h: "dict_has key obj" by (simp_all add: dict_has_def)
  from combine_items_first [OF n p h, of post g] obtain g' where
    g': "dict_get (fst (combine_items (pre @ PDict obj # post) [] g)) key =
           dict_get (fst (analyze_object obj g')) key" by blast
  have "dict_get (fst (analyze_json (PList (x # xs)) g)) key = dict_get combined key"
    unfolding r using a by simp
  also have "\<dots> = dict_get (fst (analyze_object obj g')) key"
    using g' a c by simp
  finally have "dict_get (fst (analyze_json (PList (x # xs)) g)) key =
      dict_get (fst (analyze_object obj g')) key" .
  moreover have "dict_get (fst (analyze_object obj g')) key \<noteq> None"
    using analyze_object_has [of key obj g'] h by (simp add: dict_has_get)
  ultimately show "\<exists>g'. dict_get (fst (analyze_json (PList (x # xs)) g)) key =
               dict_get (fst (analyze_object obj g')) key \<and>
             dict_get (fst (analyze_object obj g')) key \<noteq> None" by blast
next
  assume "distinct (map fst parent) \<and> (key, PList (PDict first # rest)) \<in> set parent"
  then have "distinct (map fst parent)" and "(key, PList (PDict first # rest)) \<in> set parent"
    by auto
  from analyze_items_entry [OF this, of parent "[]" g] obtain g1 where
    e: "dict_get (fst (analyze_object parent g)) key =
          Some (fst (property_schema parent key (PList (PDict first # rest)) g1))"
    by (auto simp: analyze_object_def)
  from property_schema_object_array [of parent key first rest g1] e
  show "\<exists>node g'. dict_get (fst (analyze_object parent g)) key = Some (PDict node) \<and>
         dict_get node ''properties'' = Some (PDict (fst (analyze_object first g')))"
    by auto
qed


theorem array_schema_first_wins_witness:
  "''a'' \<noteq> ''__array_stats'' \<and>
   take 10 (PDict [(''a'', PInt 1)] # [PDict [(''a'', PStr ''s''), (''b'', PInt 2)]]) =
     [] @ PDict [(''a'', PInt 1)] # [PDict [(''a'', PStr ''s''), (''b'', PInt 2)]] \<and>
   dict_has ''a'' [(''a'', PInt 1)] \<and>
   (\<exists>g'. dict_get (fst (analyze_json
                    (PList (PDict [(''a'', PInt 1)] # [PDict [(''a'', PStr ''s''), (''b'', PInt 2)]]))
                    rng0)) ''a'' =
            dict_get (fst (analyze_object [(''a'', PInt 1)] g')) ''a'' \<and>
          dict_get (fst (analyze_object [(''a'', PInt 1)] g')) ''a'' \<noteq> None) \<and>
   distinct (map fst [(''a'', PList (PDict [(''x'', PInt 1)] # [PDict [(''y'', PInt 2)]]))]) \<and>
   (\<exists>node g'. dict_get (fst (analyze_object
                    [(''a'', PList (PDict [(''x'', PInt 1)] # [PDict [(''y'', PInt 2)]]))] rng0)) ''a''
                = Some (PDict node) \<and>
      dict_get node ''properties'' = Some (PDict (fst (analyze_object [(''x'', PInt 1)] g'))))"
proof -
  have h1: "''a'' \<noteq> ''__array_stats'' \<and>
      take 10 (PDict [(''a'', PInt 1)] # [PDict [(''a'', PStr ''s''), (''b'', PInt 2)]]) =
        [] @ PDict [(''a'', PInt 1)] # [PDict [(''a'', PStr ''s''), (''b'', PInt 2)]] \<and>
      (\<forall>ob. PDict ob \<in> set [] \<longrightarrow> \<not> dict_has ''a'' ob) \<and> dict_has ''a'' [(''a'', PInt 1)]"
    by (simp add: dict_has_def)
  have h2: "distinct (map fst [(''a'', PList (PDict [(''x'', PInt 1)] # [PDict [(''y'', PInt 2)]]))]) \<and>
      (''a'', PList (PDict [(''x'', PInt 1)] # [PDict [(''y'', PInt 2)]]))
        \<in> set [(''a'', PList (PDict [(''x'', PInt 1)] # [PDict [(''y'', PInt 2)]]))]"
    by simp
  from array_schema_first_wins
         [of "PDict [(''a'', PInt 1)]" "[PDict [(''a'', PStr ''s''), (''b'', PInt 2)]]" rng0
             "''a''" "[]" "[(''a'', PInt 1)]" "[PDict [(''a'', PStr ''s''), (''b'', PInt 2)]]"
             "[(''a'', PList (PDict [(''x'', PInt 1)] # [PDict [(''y'', PInt 2)]]))]"
             "[(''x'', PInt 1)]" "[PDict [(''y'', PInt 2)]]"]
  have "(\<exists>g'. dict_get (fst (analyze_json
                    (PList (PDict [(''a'', PInt 1)] # [PDict [(''a'', PStr ''s''), (''b'', PInt 2)]]))
                    rng0)) ''a'' =
            dict_get (fst (analyze_object [(''a'', PInt 1)] g')) ''a'' \<and>
          dict_get (fst (analyze_object [(''a'', PInt 1)] g')) ''a'' \<noteq> None) \<and>
   (\<exists>node g'. dict_get (fst (analyze_object
                    [(''a'', PList (PDict [(''x'', PInt 1)] # [PDict [(''y'', PInt 2)]]))] rng0)) ''a''
                = Some (PDict node) \<and>
      dict_get node ''properties'' = Some (PDict (fst (analyze_object [(''x'', PInt 1)] g'))))"
    using h1 h2 by blast
  with h1 h2 show ?thesis by blast
qed

text \<open>The claim as written covers nested arrays too. In \<open>{"k": [{"x": 1}, {"y": 2}]}\<close>
  both sampled elements are objects, and the properties of \<open>k\<close> hold \<open>x\<close> only.\<close>

theorem nested_array_uses_first_element_only:
  "doc_nested = PDict [(''k'', PList [PDict [(''x'', PInt 1)], PDict [(''y'', PInt 2)]])] \<and>
   fst (analyze_json doc_nested rng0) =
     [(''k'', PDict
        [(''type'', PStr ''array''), (''element_type'', PStr ''dict''),
         (''stats'', PDict [(''count'', PInt 2), (''uniform_type'', PBool True)]),
         (''properties'', PDict
            [(''x'', PDict
               [(''type'', PStr ''int''), (''value'', PInt 1),
                (''stats'', PDict [(''type'', PStr ''int''), (''value'', PInt 1),
                                   (''min'', PInt 1), (''max'', PInt 1)]),
                (''examples'', PList [PInt 1])])])])]"
  by (simp add: doc_nested_def analyze_object_def compute_array_stats_def isinstance_def
        isinstance_int_float_def compute_value_stats_def sibling_min_max_def get_examples_def)

section \<open>Determinism and the random generator\<close>

lemma string_stats_no_sampling:
  "\<not> length arr > 5 \<Longrightarrow> \<exists>S. \<forall>g. string_stats arr stats g = (S, g)"
  by (cases arr) (simp_all add: string_stats_def string_examples_def Let_def)

lemma compute_array_stats_branches:
  "compute_array_stats (x # ys) g =
     (if list_all (\<lambda>item. isinstance item (type_name x)) (x # ys) \<and> list_all isinstance_int_float (x # ys)
      then (numeric_stats (x # ys)
              [(''count'', PInt (int (length (x # ys)))), (''uniform_type'', PBool True)], g)
      else if list_all (\<lambda>item. isinstance item (type_name x)) (x # ys)
              \<and> list_all (\<lambda>item. isinstance item ''str'') (x # ys)
      then string_stats (x # ys)
              [(''count'', PInt (int (length (x # ys)))), (''uniform_type'', PBool True)] g
      else ([(''count'', PInt (int (length (x # ys)))),
             (''uniform_type'', PBool (list_all (\<lambda>item. isinstance item (type_name x)) (x # ys)))], g))"
proof (cases "list_all (\<lambda>item. isinstance item (type_name x)) (x # ys)")
  case True
  then show ?thesis
    by (simp add: compute_array_stats_def Let_def del: list.pred_inject)
next
  case False
  then show ?thesis
    by (simp add: compute_array_stats_def Let_def del: list.pred_inject)
qed

lemma if_chain_no_sampling:
  "(c2 \<Longrightarrow> \<exists>S. \<forall>g. f g = (S, g)) \<Longrightarrow>
   \<exists>S. \<forall>g. (if c1 then (a, g) else if c2 then f g else (b, g)) = (S, g)"
  by (cases c1; cases c2) auto

lemma compute_array_stats_no_sampling:
  assumes "\<not> (length xs > 5 \<and> list_all (\<lambda>item. isinstance item ''str'') xs)"
  shows "\<exists>S. \<forall>g. compute_array_stats xs g = (S, g)"
proof (cases xs)
  case Nil
  then show ?thesis by (simp add: compute_array_stats_def)
next
  case (Cons x ys)
  have "\<exists>S. \<forall>g. compute_array_stats (x # ys) g = (S, g)"
    unfolding compute_array_stats_branches
  proof (rule if_chain_no_sampling)
    assume "list_all (\<lambda>item. isinstance item (type_name x)) (x # ys)
              \<and> list_all (\<lambda>item. isinstance item ''str'') (x # ys)"
    with assms Cons have "\<not> length (x # ys) > 5" by simp
    from string_stats_no_sampling [OF this]
    show "\<exists>S. \<forall>g. string_stats (x # ys)
              [(''count'', PInt (int (length (x # ys)))), (''uniform_type'', PBool True)] g = (S, g)" .
  qed
  then show ?thesis by (simp only: Cons)
qed

lemma property_schema_no_sampling:
  assumes nv: "no_long_string_array v"
    and sub: "\<And>kvs. size (PDict kvs) \<le> size v \<Longrightarrow>
        list_all (\<lambda>kv. no_long_string_array (snd kv)) kvs \<Longrightarrow>
        \<exists>S. \<forall>g. analyze_object kvs g = (S, g)"
  shows "\<exists>N. \<forall>g. property_schema obj k v g = (N, g)"
proof (cases v)
  case (PDict kvs)
  have "size (PDict kvs) \<le> size v" using PDict by simp
  from sub [OF this] nv PDict obtain S where "\<And>g. analyze_object kvs g = (S, g)" by auto
  then show ?thesis unfolding PDict by (simp add: property_schema_def)
next
  case (PList xs)
  from nv PList obtain C where c: "\<And>g. compute_array_stats xs g = (C, g)"
    using compute_array_stats_no_sampling [of xs] by auto
  show ?thesis
  proof (cases xs)
    case Nil
    with PList c show ?thesis by (simp add: property_schema_def Let_def)
  next
    case (Cons y ys)
    show ?thesis
    proof (cases y)
      case (PDict kvs)
      have lt: "size (PDict kvs) \<le> size v" using PList Cons PDict by simp
      have "list_all (\<lambda>kv. no_long_string_array (snd kv)) kvs"
        using nv PList Cons PDict by simp
      from sub [OF lt this] obtain S where "\<And>g. analyze_object kvs g = (S, g)" by auto
      with c show ?thesis
        unfolding PList Cons PDict by (simp add: property_schema_def Let_def)
    qed (use PList Cons c in \<open>simp_all add: property_schema_def Let_def\<close>)
  qed
qed (simp_all add: property_schema_def)

lemma analyze_items_no_sampling:
  "list_all (\<lambda>kv. no_long_string_array (snd kv)) items \<Longrightarrow>
   \<exists>S. \<forall>g. analyze_items obj items schema g = (S, g)"
proof (induction "size (PDict items)" arbitrary: obj items schema rule: less_induct)
  case less
  show ?case
  proof (cases items)
    case Nil
    then show ?thesis by simp
  next
    case (Cons kv rest)
    obtain k v where kv: "kv = (k, v)" by (cases kv)
    from less.prems Cons kv have nv: "no_long_string_array v"
      and nrest: "list_all (\<lambda>kv. no_long_string_array (snd kv)) rest" by auto
    have sub: "\<And>kvs. size (PDict kvs) \<le> size v \<Longrightarrow>
        list_all (\<lambda>kv. no_long_string_array (snd kv)) kvs \<Longrightarrow>
        \<exists>S. \<forall>g. analyze_object kvs g = (S, g)"
    proof -
      fix kvs :: pydict
      assume "size (PDict kvs) \<le> size v" and l: "list_all (\<lambda>kv. no_long_string_array (snd kv)) kvs"
      then have "size (PDict kvs) < size (PDict items)" using Cons kv by simp
      from less.hyps [OF this l] show "\<exists>S. \<forall>g. analyze_object kvs g = (S, g)"
        by (simp add: analyze_object_def)
    qed
    from property_schema_no_sampling [OF nv sub] obtain N where
      ps: "\<And>g. property_schema obj k v g = (N, g)" by blast
    have lt: "size (PDict rest) < size (PDict items)" using Cons by simp
    from less.hyps [OF lt nrest] obtain S where
      "\<And>g. analyze_items obj rest (dict_set k N schema) g = (S, g)" by blast
    then show ?thesis
      unfolding Cons kv analyze_items_Cons by (simp add: ps)
  qed
qed

lemma analyze_object_no_sampling:
  "list_all (\<lambda>kv. no_long_string_array (snd kv)) obj \<Longrightarrow>
   \<exists>S. \<forall>g. analyze_object obj g = (S, g)"
  by (simp add: analyze_object_def analyze_items_no_sampling)

lemma combine_items_no_sampling:
  "list_all no_long_string_array items \<Longrightarrow>
   \<exists>S. \<forall>g. combine_items items combined g = (S, g)"
proof (induction items arbitrary: combined)
  case Nil
  then show ?case by simp
next
  case (Cons item items)
  then have r: "\<And>c. \<exists>S. \<forall>g. combine_items items c g = (S, g)" by simp
  show ?case
  proof (cases item)
    case (PDict obj)
    with Cons.prems have "list_all (\<lambda>kv. no_long_string_array (snd kv)) obj" by simp
    from analyze_object_no_sampling [OF this] obtain A where
      a: "\<And>g. analyze_object obj g = (A, g)" by blast
    from r [of "merge_first A combined"] show ?thesis unfolding PDict by (simp add: a)
  qed (use r in simp_all)
qed

lemma analyze_json_no_sampling:
  assumes "no_long_string_array v"
  shows "\<exists>S. \<forall>g. analyze_json v g = (S, g)"
proof (cases v)
  case (PDict obj)
  with assms show ?thesis by (simp add: analyze_object_no_sampling)
next
  case (PList ys)
  show ?thesis
  proof (cases ys)
    case Nil
    with PList show ?thesis by simp
  next
    case (Cons x xs)
    from assms PList Cons have "list_all no_long_string_array (take 10 (x # xs))"
      by (auto simp: list_all_iff dest: in_set_takeD)
    from combine_items_no_sampling [OF this] obtain C where
      c: "\<And>g. combine_items (take 10 (x # xs)) [] g = (C, g)" by blast
    from assms PList Cons obtain St where s: "\<And>g. compute_array_stats (x # xs) g = (St, g)"
      using compute_array_stats_no_sampling [of "x # xs"] by auto
    show ?thesis
      unfolding PList Cons analyze_json_root_array using c s by simp
  qed
qed simp_all

text \<open>
  Claim C3, as amended. On every value that contains no array of more than five strings,
  \<open>analyze_json\<close> is deterministic: it returns the same schema, statistics and examples
  included, whatever the state of the random generator, and it leaves the generator as it
  found it. (The \<open>examples\<close> of a uniformly string-typed array with more than five
  elements are drawn with \<^verbatim>\<open>random.sample\<close>.)
\<close>

theorem analyze_deterministic_without_sampling:
  "no_long_string_array v \<Longrightarrow>
   fst (analyze_json v g1) = fst (analyze_json v g2) \<and> snd (analyze_json v g1) = g1"
  using analyze_json_no_sampling [of v] by auto

theorem analyze_deterministic_without_sampling_witness:
  "no_long_string_array doc_nested \<and>
   fst (analyze_json doc_nested rng0) = fst (analyze_json doc_nested rng1) \<and>
   snd (analyze_json doc_nested rng0) = rng0"
proof -
  have h: "no_long_string_array doc_nested"
    by (simp add: doc_nested_def isinstance_def)
  from h analyze_deterministic_without_sampling [OF h, of rng0 rng1] show ?thesis by simp
qed

text \<open>The claim as written holds for every value. For \<open>{"k": ["a","b","c","d","e","f"]}\<close>
  two states of the generator give different examples.\<close>

theorem analyze_depends_on_generator:
  "fst (analyze_json doc_letters rng0) \<noteq> fst (analyze_json doc_letters rng1)"
  by code_simp

section \<open>Query normalization\<close>







subsection \<open>Characters\<close>

lemma is_space_chars [simp]:
  "is_space CHR '' ''" "\<not> is_space CHR ''-''" "\<not> is_space CHR ''s''" "\<not> is_space CHR ''o''"
  "\<not> is_space CHR ''r''" "\<not> is_space CHR ''t''" "\<not> is_space CHR ''.''" "\<not> is_space CHR '')''"
  "\<not> is_space CHR ''|''" "\<not> is_space CHR ''(''" "\<not> is_space CHR ''_''" "\<not> is_space CHR ''b''"
  "\<not> is_space CHR ''y''" "\<not> is_space CHR ''e''" "\<not> is_space CHR ''v''" "\<not> is_space CHR ''k''"
  "\<not> is_space CHR ''=''"
  by (simp_all add: is_space_def)


lemma field_char_not_eq: "is_field_char c \<Longrightarrow> c \<noteq> CHR ''=''"
  by (auto simp: is_field_char_def is_word_def Let_def)



subsection \<open>The group\<close>

lemma takeWhile_all: "list_all P xs \<Longrightarrow> takeWhile P xs = xs"
  by (induction xs) auto

lemma dropWhile_word_takeWhile_field:
  "list_all is_field_char xs \<Longrightarrow>
   takeWhile is_word xs @ takeWhile is_field_char (dropWhile is_word xs) = xs"
proof -
  assume a: "list_all is_field_char xs"
  have "list_all is_field_char (dropWhile is_word xs)"
    using a by (auto simp: list_all_iff dest: set_dropWhileD)
  then have "takeWhile is_field_char (dropWhile is_word xs) = dropWhile is_word xs"
    by (rule takeWhile_all)
  then show ?thesis by (simp only: takeWhile_dropWhile_id)
qed

lemma field_group_token: "field_token f \<Longrightarrow> field_group f = Some f"
proof -
  assume a: "field_token f"
  then obtain w rest where f: "f = CHR ''.'' # w # rest" and w: "is_word w"
    and r: "list_all is_field_char rest"
    by (auto simp: field_token_def split: list.splits)
  have "list_all is_field_char (w # rest)" using w r by (simp add: is_field_char_def)
  from dropWhile_word_takeWhile_field [OF this] w show ?thesis
    unfolding f by (simp add: field_group_def Let_def)
qed

subsection \<open>Where a match can start\<close>












lemma replace_all_Nil: "old \<noteq> [] \<Longrightarrow> replace_all old new [] = []"
  by simp





subsection \<open>The matchers at the rewritten pattern\<close>







subsection \<open>Searching and replacing in a query around the pattern\<close>















subsection \<open>The four rewrites\<close>










subsection \<open>Queries without the patterns\<close>








section \<open>Path resolution for a root array\<close>

text \<open>
  Claim C2 says that resolving the path of a node of the schema gives that node's schema,
  also when the document root is an array. For the root array \<open>[{"a": {"b": 1}}]\<close> the
  tree has the items \<open>a\<close> and, below it, \<open>b\<close>. The path of \<open>a\<close> is \<open>["a"]\<close>; the walk
  skips its first segment (the special case for a root array) and returns the whole root
  schema instead of the schema stored under \<open>a\<close>. The path of \<open>b\<close> is \<open>["a", "b"]\<close>;
  after the skipped segment the walk looks for \<open>b\<close> at the root and returns not-found.
\<close>

theorem root_array_paths_resolve_wrongly:
  "update_schema_tree (fst (analyze_json doc_objects rng0)) =
     [Item ''[Root]'' [Item ''Count'' [], Item ''a'' [Item ''b'' []]]] \<and>
   get_item_path (hd (update_schema_tree (fst (analyze_json doc_objects rng0)))) [1] = Some [''a''] \<and>
   dict_get (fst (analyze_json doc_objects rng0)) ''a'' =
     Some (PDict [(''type'', PStr ''object''),
                  (''properties'', PDict
                     [(''b'', PDict [(''type'', PStr ''int''), (''value'', PInt 1),
                                     (''stats'', PDict [(''type'', PStr ''int''), (''value'', PInt 1),
                                                        (''min'', PInt 1), (''max'', PInt 1)]),
                                     (''examples'', PList [PInt 1])])])]) \<and>
   get_schema_at_path (fst (analyze_json doc_objects rng0)) [''a''] =
     Inr (PDict (fst (analyze_json doc_objects rng0))) \<and>
   get_item_path (hd (update_schema_tree (fst (analyze_json doc_objects rng0)))) [1, 0] =
     Some [''a'', ''b''] \<and>
   get_schema_at_path (fst (analyze_json doc_objects rng0)) [''a'', ''b''] = Inr PNone"
  by code_simp

section \<open>The hidden-path set\<close>

lemma hidden_paths_toggle:
  "hidden_paths (toggle_attribute_visibility path is_visible w) =
     (if is_visible then hidden_paths w - {path} else insert path (hidden_paths w))"
  by (simp add: toggle_attribute_visibility_def)

lemma hidden_paths_load:
  "hidden_paths (load_json_file loads file_path file_text w) =
     (case file_text of None \<Rightarrow> hidden_paths w | Some content \<Rightarrow> {})"
  by (simp add: load_json_file_def Let_def split: option.splits)

lemma hidden_paths_reset: "hidden_paths (reset_to_original_json loads w) = hidden_paths w"
  by (simp add: reset_to_original_json_def split: option.splits)

lemma hidden_paths_query: "hidden_paths (run_jq_query loads query result w) = hidden_paths w"
  by (simp add: run_jq_query_def hidden_paths_reset split: jq_result.splits option.splits)

lemma run_Cons: "run loads w (e # events) = run loads (step loads w e) events"
  by (simp add: run_def)

text \<open>
  Claim C9, as amended. The hidden-path set is changed only by the user's visibility
  toggles and by loading: a toggle adds or removes its path, reading a file in
  \<open>load_json_file\<close> empties the set, and nothing else touches it. In particular a
  query leaves the set as it is, whatever the engine returns and also when its result
  replaces the document of the schema viewer, and so does a load whose file cannot be
  read. Over a whole session the set the window holds is the one obtained by replaying
  the toggles made since the file was last read.
\<close>

theorem hidden_paths_follow_toggles_and_loads:
  "hidden_paths (run_jq_query loads query result w) = hidden_paths w \<and>
   hidden_paths (load_json_file loads file_path (Some content) w) = {} \<and>
   hidden_paths (load_json_file loads file_path None w) = hidden_paths w \<and>
   hidden_paths (toggle_attribute_visibility path is_visible w) =
     (if is_visible then hidden_paths w - {path} else insert path (hidden_paths w)) \<and>
   hidden_paths (run loads w events) = spec_hidden_paths (hidden_paths w) events"
proof (intro conjI)
  show "hidden_paths (run loads w events) = spec_hidden_paths (hidden_paths w) events"
  proof (induction events arbitrary: w)
    case Nil
    then show ?case by (simp add: run_def)
  next
    case (Cons e events)
    show ?case
    proof (cases e)
      case (Toggle p vis)
      then show ?thesis by (simp add: run_Cons Cons.IH hidden_paths_toggle)
    next
      case (LoadFile f t)
      then show ?thesis by (cases t) (simp_all add: run_Cons Cons.IH hidden_paths_load)
    next
      case (RunQuery q r)
      then show ?thesis by (simp add: run_Cons Cons.IH hidden_paths_query)
    qed
  qed
qed (simp_all add: hidden_paths_query hidden_paths_load hidden_paths_toggle)

theorem hidden_paths_follow_toggles_and_loads_witness:
  "hidden_paths (run sample_loads init_window sample_session) =
     spec_hidden_paths (hidden_paths init_window) sample_session \<and>
   spec_hidden_paths (hidden_paths init_window) sample_session = {[''a'']}"
  using hidden_paths_follow_toggles_and_loads
          [of sample_loads "[]" JqRaised init_window "[]" "[]" "[]" True sample_session]
  by (simp add: sample_session_def)

text \<open>The claim as written has the set cleared when a query result replaces the current
  document. In the sample session the result \<open>1\<close> of the query becomes the document of
  the schema viewer, and the path hidden before the query is still hidden.\<close>

theorem query_result_keeps_hidden_paths:
  "schema_data (run sample_loads init_window sample_session) = Some (PInt 1) \<and>
   hidden_paths (run sample_loads init_window sample_session) = {[''a'']}"
  by (simp add: run_def sample_session_def init_window_def load_json_file_def
        toggle_attribute_visibility_def run_jq_query_def sample_loads_def sample_text_def)

end
